theory Spec2Isabelle
  imports Main "HOL-Library.Word"
begin

unbundle bit_operations_syntax

section \<open>Data model of stl.ino\<close>

text \<open>
  \<^verbatim>\<open>typedef int32_t fixed_t;\<close> A Q16.16 value is a 32-bit machine word. Signed
  readings use \<open>sint\<close>, signed comparisons \<open><s\<close> and \<open>\<le>s\<close>; the unsigned temporaries of
  the source (\<^verbatim>\<open>uint32_t\<close>) are the same words read with \<open>uint\<close>/\<open>unat\<close> and compared with
  \<open><\<close> and \<open>\<le>\<close>. All arithmetic wraps modulo \<open>2 ^ 32\<close>.
\<close>

type_synonym fixed_t = "32 word"

record point2d =
  x2d :: fixed_t
  y2d :: fixed_t

record point3d =
  x3d :: fixed_t
  y3d :: fixed_t
  z3d :: fixed_t

type_synonym vector3d = point3d


record box3d =
  max3 :: vector3d
  min3 :: vector3d

text \<open>\<^verbatim>\<open>point2d points[3]\<close> and \<^verbatim>\<open>point3d points[3]\<close>: three named slots.\<close>

record triangle2d =
  p2_0 :: point2d
  p2_1 :: point2d
  p2_2 :: point2d

record triangle3d =
  p3_0 :: point3d
  p3_1 :: point3d
  p3_2 :: point3d

definition MAX_TRIANGLES :: nat where
  "MAX_TRIANGLES = 10000"

section \<open>Fixed-point kernel\<close>

definition addfix :: "fixed_t \<Rightarrow> fixed_t \<Rightarrow> fixed_t" where
  "addfix a b = a + b"

definition subfix :: "fixed_t \<Rightarrow> fixed_t \<Rightarrow> fixed_t" where
  "subfix a b = a - b"

text \<open>
  \<^verbatim>\<open>(a >= 0) ? a : (-a)\<close> stored into a \<^verbatim>\<open>uint32_t\<close>; the negation of the most negative
  value wraps to \<open>0x80000000\<close>.
\<close>

definition absfix :: "fixed_t \<Rightarrow> 32 word" where
  "absfix a = (if 0 \<le>s a then a else - a)"

text \<open>
  First loop of \<^verbatim>\<open>divfix\<close>: \<^verbatim>\<open>while (divider < remainder) { divider <<= 1; bit <<= 1; }\<close>.
  With a zero divider and a non-zero dividend it never exits, so the loop is a partial
  function and not returning is \<open>None\<close>.
\<close>

partial_function (option) divfix_align ::
  "32 word \<Rightarrow> 32 word \<Rightarrow> 32 word \<Rightarrow> (32 word \<times> 32 word) option" where
  "divfix_align remainder divider qbit =
     (if divider < remainder
      then divfix_align remainder (push_bit 1 divider) (push_bit 1 qbit)
      else Some (divider, qbit))"

declare divfix_align.simps [code]

text \<open>
  Third loop of \<^verbatim>\<open>divfix\<close>: \<^verbatim>\<open>while (bit && remainder) { ... remainder <<= 1; bit >>= 1; }\<close>.
  The source's \<^verbatim>\<open>bit\<close> and \<^verbatim>\<open>quotient\<close> are \<open>qbit\<close> and \<open>quot\<close> here.
\<close>

function divfix_loop :: "32 word \<Rightarrow> 32 word \<Rightarrow> 32 word \<Rightarrow> 32 word \<Rightarrow> 32 word" where
  "divfix_loop divider remainder qbit quot =
     (if qbit \<noteq> 0 \<and> remainder \<noteq> 0
      then (if divider \<le> remainder
            then divfix_loop divider (push_bit 1 (remainder - divider)) (drop_bit 1 qbit)
                   (quot OR qbit)
            else divfix_loop divider (push_bit 1 remainder) (drop_bit 1 qbit) quot)
      else quot)"
  by pat_completeness auto
termination
proof (relation "measure (\<lambda>(divider, remainder, qbit, quot). unat qbit)")
  show "wf (measure (\<lambda>(divider :: 32 word, remainder :: 32 word, qbit :: 32 word,
      quot :: 32 word). unat qbit))"
    by simp
next
  fix divider remainder qbit quot :: "32 word"
  assume "qbit \<noteq> 0 \<and> remainder \<noteq> 0"
  then have "unat qbit \<noteq> 0"
    by (simp add: unat_eq_0)
  then have "unat qbit div 2 < unat qbit"
    by simp
  then have lt: "unat (drop_bit 1 qbit) < unat qbit"
    by (simp add: drop_bit_eq_div unat_div)
  {
    assume "divider \<le> remainder"
    show "((divider, push_bit 1 (remainder - divider), drop_bit 1 qbit, quot OR qbit),
        (divider, remainder, qbit, quot))
      \<in> measure (\<lambda>(divider, remainder, qbit, quot). unat qbit)"
      using lt by simp
  }
  {
    assume "\<not> divider \<le> remainder"
    show "((divider, push_bit 1 remainder, drop_bit 1 qbit, quot),
        (divider, remainder, qbit, quot))
      \<in> measure (\<lambda>(divider, remainder, qbit, quot). unat qbit)"
      using lt by simp
  }
qed

text \<open>
  \<^verbatim>\<open>divfix\<close>: the alignment loop, the step taken when the shifted divider has its top bit
  set, the shift-and-subtract loop, and the sign from \<^verbatim>\<open>(a ^ b) & 0x80000000\<close>.
\<close>

definition divfix :: "fixed_t \<Rightarrow> fixed_t \<Rightarrow> fixed_t option" where
  "divfix a b =
     (case divfix_align (absfix a) (absfix b) 0x10000 of
        None \<Rightarrow> None
      | Some (divider, qbit) \<Rightarrow>
          let remainder = absfix a;
              quot = (0 :: 32 word);
              (quot, remainder, divider, qbit) =
                (if divider AND 0x80000000 \<noteq> 0
                 then (if divider \<le> remainder
                       then (quot OR qbit, remainder - divider,
                             drop_bit 1 divider, drop_bit 1 qbit)
                       else (quot, remainder, drop_bit 1 divider, drop_bit 1 qbit))
                 else (quot, remainder, divider, qbit));
              result = divfix_loop divider remainder qbit quot
          in Some (if (a XOR b) AND 0x80000000 \<noteq> 0 then - result else result))"



text \<open>
  \<^verbatim>\<open>mulfix\<close>: \<^verbatim>\<open>A\<close>, \<^verbatim>\<open>C\<close> are the arithmetically shifted high halves, \<^verbatim>\<open>B\<close>, \<^verbatim>\<open>D\<close> the low
  halves; every product and sum is a 32-bit one.
\<close>

definition mulfix :: "fixed_t \<Rightarrow> fixed_t \<Rightarrow> fixed_t" where
  "mulfix a b =
     (let A = signed_drop_bit 16 a; C = signed_drop_bit 16 b;
          B = a AND 0xFFFF; D = b AND 0xFFFF;
          AC = A * C;
          AD_CB = A * D + C * B;
          BD = B * D;
          product_hi = AC + signed_drop_bit 16 AD_CB;
          ad_cb_temp = push_bit 16 AD_CB;
          product_lo = BD + ad_cb_temp;
          product_hi = (if product_lo < BD then product_hi + 1 else product_hi)
      in push_bit 16 product_hi OR drop_bit 16 product_lo)"

definition int_to_fix :: "32 word \<Rightarrow> fixed_t" where
  "int_to_fix a = push_bit 16 a"

definition fix_to_int :: "fixed_t \<Rightarrow> 32 word" where
  "fix_to_int a = signed_drop_bit 16 a"


text \<open>
  The reference multiply the split-operand algorithm is compared with: the operands are
  sign-extended to 64 bits, multiplied there, shifted right arithmetically by 16, and the
  low 32 bits are kept.
\<close>

definition mulfix_wide :: "fixed_t \<Rightarrow> fixed_t \<Rightarrow> fixed_t" where
  "mulfix_wide a b = ucast (signed_drop_bit 16 ((scast a :: 64 word) * scast b))"

section \<open>Triangles and the sentinel\<close>

text \<open>
  \<^verbatim>\<open>is_null_triangle3d\<close>: the flag starts true and is cleared by the first non-zero coordinate
  found in each point.
\<close>

definition is_null_triangle3d :: "triangle3d \<Rightarrow> bool" where
  "is_null_triangle3d t =
     (let step = (\<lambda>p result.
            if x3d p \<noteq> 0 then False
            else if y3d p \<noteq> 0 then False
            else if z3d p \<noteq> 0 then False
            else result);
          result = True;
          result = step (p3_0 t) result;
          result = step (p3_1 t) result;
          result = step (p3_2 t) result
      in result)"

definition null_point3d :: point3d where
  "null_point3d = \<lparr>x3d = 0, y3d = 0, z3d = 0\<rparr>"

text \<open>\<^verbatim>\<open>set_null_triangle3d\<close> overwrites all nine coordinates, so it returns the constant.\<close>

definition null_triangle3d :: triangle3d where
  "null_triangle3d = \<lparr>p3_0 = null_point3d, p3_1 = null_point3d, p3_2 = null_point3d\<rparr>"

definition set_null_triangle3d :: "triangle3d \<Rightarrow> triangle3d" where
  "set_null_triangle3d t = null_triangle3d"

section \<open>Decimal text to fixed point\<close>

text \<open>
  The text is the C string without its terminating NUL; a cursor is the rest of the text.
  At the empty rest \<^verbatim>\<open>*c\<close> is the NUL. Undefined behaviour of the source is an error value.
\<close>

datatype error =
    TextOverrun
  | DivisionByZero
  | WriteOutOfBounds nat
  | ReadOutOfBounds

definition newline :: char where
  "newline = CHR 0x0A"

text \<open>
  \<^verbatim>\<open>uint32_t decdigit = *c-48;\<close> The plain \<^verbatim>\<open>char\<close> is a signed byte, as it is with \<^verbatim>\<open>g++\<close> on
  linux, where the source's \<^verbatim>\<open>tester.cc\<close> build runs, and with \<^verbatim>\<open>avr-gcc\<close>: it is promoted to
  \<^verbatim>\<open>int\<close> with its sign, so a byte from \<open>0x80\<close> on is negative before the subtraction, and the
  difference is then converted to \<^verbatim>\<open>uint32_t\<close>. Bytes below \<open>0x80\<close> give the same value
  whatever the signedness of \<^verbatim>\<open>char\<close>.
\<close>

definition decdigit :: "char \<Rightarrow> 32 word" where
  "decdigit ch = scast (of_char ch :: 8 word) - 48"

text \<open>
  \<^verbatim>\<open>while (*c!=' ' && *c!='\n' && *c!='.') { tmp *= 10; tmp += decdigit; c++; }\<close>
  The NUL is no delimiter: at the end of the text the loop steps over it and reads past
  the string.
\<close>

fun int_digits :: "string \<Rightarrow> 32 word \<Rightarrow> error + (string \<times> 32 word)" where
  "int_digits [] tmp = Inl TextOverrun"
| "int_digits (ch # cs) tmp =
     (if ch \<noteq> CHR '' '' \<and> ch \<noteq> newline \<and> ch \<noteq> CHR ''.''
      then int_digits cs (tmp * 10 + decdigit ch)
      else Inr (ch # cs, tmp))"

text \<open>The second loop also stops at \<^verbatim>\<open>'e'\<close> and scales \<^verbatim>\<open>dividend\<close>.\<close>

fun frac_digits :: "string \<Rightarrow> 32 word \<Rightarrow> 32 word \<Rightarrow> error + (string \<times> 32 word \<times> 32 word)" where
  "frac_digits [] tmp2 dividend = Inl TextOverrun"
| "frac_digits (ch # cs) tmp2 dividend =
     (if ch \<noteq> CHR '' '' \<and> ch \<noteq> newline \<and> ch \<noteq> CHR ''.'' \<and> ch \<noteq> CHR ''e''
      then frac_digits cs (tmp2 * 10 + decdigit ch) (dividend * 10)
      else Inr (ch # cs, tmp2, dividend))"

text \<open>\<^verbatim>\<open>while (tmp2>65535) { tmp2/=10; dividend/=10; }\<close>\<close>

function frac_fit :: "32 word \<Rightarrow> 32 word \<Rightarrow> 32 word \<times> 32 word" where
  "frac_fit tmp2 dividend =
     (if 65535 < tmp2 then frac_fit (tmp2 div 10) (dividend div 10) else (tmp2, dividend))"
  by pat_completeness auto
termination
proof (relation "measure (\<lambda>(tmp2, dividend). unat tmp2)")
  show "wf (measure (\<lambda>(tmp2 :: 32 word, dividend :: 32 word). unat tmp2))"
    by simp
next
  fix tmp2 dividend :: "32 word"
  assume "65535 < tmp2"
  then have "65535 < unat tmp2"
    by (simp add: word_less_nat_alt)
  then have "unat tmp2 div 10 < unat tmp2"
    by simp
  then have "unat (tmp2 div 10) < unat tmp2"
    by (simp add: unat_div)
  then show "((tmp2 div 10, dividend div 10), (tmp2, dividend))
      \<in> measure (\<lambda>(tmp2, dividend). unat tmp2)"
    by simp
qed

text \<open>\<^verbatim>\<open>if (*c=='-') { sign = -1; c++; }\<close>\<close>

definition skip_sign :: "string \<Rightarrow> 32 word \<times> string" where
  "skip_sign c = (case c of
       ch # cs \<Rightarrow> if ch = CHR ''-'' then (- 1, cs) else (1, c)
     | [] \<Rightarrow> (1, c))"

text \<open>\<^verbatim>\<open>if (*c=='.') c++;\<close>\<close>

definition skip_dot :: "string \<Rightarrow> string" where
  "skip_dot c = (case c of ch # cs \<Rightarrow> if ch = CHR ''.'' then cs else c | [] \<Rightarrow> c)"

text \<open>
  The tail of \<^verbatim>\<open>ascii_decimal_to_fixed_t\<close>, after the two digit loops have stopped at \<open>c\<close>:
  the exponent case, the fitting loop, \<^verbatim>\<open>c++\<close>, and the composition of the value. The
  unsigned division by a zero \<^verbatim>\<open>dividend\<close> is undefined in the source.
\<close>

definition compose_fixed ::
  "32 word \<Rightarrow> string \<Rightarrow> 32 word \<Rightarrow> 32 word \<Rightarrow> 32 word \<Rightarrow> error + (string \<times> fixed_t)" where
  "compose_fixed sign c tmp tmp2 dividend =
     (let (tmp, tmp2) = (case c of
              ch # cs \<Rightarrow> if ch = CHR ''e'' then (0, 0) else (tmp, tmp2)
            | [] \<Rightarrow> (tmp, tmp2));
          (tmp2, dividend) = frac_fit tmp2 dividend;
          c = tl c
      in if dividend = 0 then Inl DivisionByZero
         else let intpart = push_bit 16 tmp;
                  fracpart = push_bit 16 tmp2 div dividend;
                  fixed = intpart OR fracpart;
                  fixed = sign * fixed
              in Inr (c, fixed))"

text \<open>
  \<^verbatim>\<open>ascii_decimal_to_fixed_t\<close> returns the advanced cursor and the value written through
  \<^verbatim>\<open>fixed\<close>.
\<close>

definition ascii_decimal_to_fixed_t :: "string \<Rightarrow> error + (string \<times> fixed_t)" where
  "ascii_decimal_to_fixed_t c =
     (case skip_sign c of
        (sign, c) \<Rightarrow>
          (case int_digits c 0 of
             Inl e \<Rightarrow> Inl e
           | Inr (c, tmp) \<Rightarrow>
               (case frac_digits (skip_dot c) 0 1 of
                  Inl e \<Rightarrow> Inl e
                | Inr (c, tmp2, dividend) \<Rightarrow> compose_fixed sign c tmp tmp2 dividend)))"

section \<open>The STL ingester\<close>

text \<open>\<^verbatim>\<open>while (*s && strncmp(s,"vertex ",7)) s++;\<close>\<close>

fun find_vertex :: "string \<Rightarrow> string" where
  "find_vertex [] = []"
| "find_vertex (ch # cs) =
     (if take 7 (ch # cs) = ''vertex '' then ch # cs else find_vertex cs)"

definition parse_point :: "string \<Rightarrow> error + (string \<times> point3d)" where
  "parse_point s =
     (case ascii_decimal_to_fixed_t s of
        Inl e \<Rightarrow> Inl e
      | Inr (s, x) \<Rightarrow>
          (case ascii_decimal_to_fixed_t s of
             Inl e \<Rightarrow> Inl e
           | Inr (s, y) \<Rightarrow>
               (case ascii_decimal_to_fixed_t s of
                  Inl e \<Rightarrow> Inl e
                | Inr (s, z) \<Rightarrow> Inr (s, \<lparr>x3d = x, y3d = y, z3d = z\<rparr>))))"

definition set_point :: "nat \<Rightarrow> point3d \<Rightarrow> triangle3d \<Rightarrow> triangle3d" where
  "set_point i p t =
     (if i = 0 then t\<lparr>p3_0 := p\<rparr> else if i = 1 then t\<lparr>p3_1 := p\<rparr> else t\<lparr>p3_2 := p\<rparr>)"

text \<open>
  \<^verbatim>\<open>for (uint8_t i=0;i<3;i++)\<close> with \<open>n\<close> iterations left: skip to the marker, \<^verbatim>\<open>break\<close> at the
  end of the text, otherwise step over the marker and parse the three coordinates into
  \<^verbatim>\<open>newtri->points[i]\<close>.
\<close>

fun parse_vertices :: "nat \<Rightarrow> nat \<Rightarrow> string \<Rightarrow> triangle3d \<Rightarrow> error + (string \<times> triangle3d)" where
  "parse_vertices 0 i s newtri = Inr (s, newtri)"
| "parse_vertices (Suc n) i s newtri =
     (let s = find_vertex s
      in if s = [] then Inr (s, newtri)
         else case parse_point (drop 7 s) of
                Inl e \<Rightarrow> Inl e
              | Inr (s, p) \<Rightarrow> parse_vertices n (Suc i) s (set_point i p newtri))"

section \<open>The cursor never moves backwards\<close>

lemma int_digits_length:
  "int_digits s tmp = Inr (s', tmp') \<Longrightarrow> length s' \<le> length s"
proof (induction s arbitrary: tmp)
  case Nil
  then show ?case by simp
next
  case (Cons ch cs)
  then show ?case
    by (fastforce split: if_splits)
qed

lemma frac_digits_length:
  "frac_digits s tmp2 dividend = Inr (s', r) \<Longrightarrow> length s' \<le> length s"
proof (induction s arbitrary: tmp2 dividend)
  case Nil
  then show ?case by simp
next
  case (Cons ch cs)
  then show ?case
    by (fastforce split: if_splits)
qed

lemma skip_sign_length: "length (snd (skip_sign s)) \<le> length s"
  by (simp add: skip_sign_def split: list.splits)

lemma skip_dot_length: "length (skip_dot s) \<le> length s"
  by (simp add: skip_dot_def split: list.splits)

lemma compose_fixed_cursor:
  "compose_fixed sign c tmp tmp2 dividend = Inr (s', v) \<Longrightarrow> s' = tl c"
  by (simp add: compose_fixed_def Let_def split: prod.splits if_splits)

lemma ascii_decimal_to_fixed_t_length:
  assumes "ascii_decimal_to_fixed_t s = Inr (s', v)"
  shows "length s' \<le> length s"
proof -
  obtain sign c1 where ss: "skip_sign s = (sign, c1)"
    by (cases "skip_sign s")
  have l1: "length c1 \<le> length s"
    using skip_sign_length [of s] ss by simp
  show ?thesis
  proof (cases "int_digits c1 0")
    case (Inl e)
    then show ?thesis
      using assms ss by (simp add: ascii_decimal_to_fixed_t_def)
  next
    case (Inr r)
    then obtain c2 tmp where i: "int_digits c1 0 = Inr (c2, tmp)"
      by (cases r) simp
    have l2: "length c2 \<le> length c1"
      using i by (rule int_digits_length)
    show ?thesis
    proof (cases "frac_digits (skip_dot c2) 0 1")
      case (Inl e)
      then show ?thesis
        using assms ss i by (simp add: ascii_decimal_to_fixed_t_def)
    next
      case (Inr r')
      then obtain c4 tmp2 dividend where f: "frac_digits (skip_dot c2) 0 1 = Inr (c4, tmp2, dividend)"
        by (cases r') auto
      have l4: "length c4 \<le> length (skip_dot c2)"
        using f by (rule frac_digits_length)
      have "compose_fixed sign c4 tmp tmp2 dividend = Inr (s', v)"
        using assms ss i f by (simp add: ascii_decimal_to_fixed_t_def)
      then have "s' = tl c4"
        by (rule compose_fixed_cursor)
      then have "length s' \<le> length c4"
        by simp
      with l1 l2 l4 skip_dot_length [of c2] show ?thesis
        by linarith
    qed
  qed
qed

lemma parse_point_length:
  assumes "parse_point s = Inr (s', p)"
  shows "length s' \<le> length s"
proof -
  obtain s1 x s2 y z where
    "ascii_decimal_to_fixed_t s = Inr (s1, x)"
    "ascii_decimal_to_fixed_t s1 = Inr (s2, y)"
    "ascii_decimal_to_fixed_t s2 = Inr (s', z)"
    using assms unfolding parse_point_def by (auto split: sum.splits)
  then have "length s1 \<le> length s" "length s2 \<le> length s1" "length s' \<le> length s2"
    by (auto dest: ascii_decimal_to_fixed_t_length)
  then show ?thesis
    by linarith
qed

lemma find_vertex_length: "length (find_vertex s) \<le> length s"
  by (induction s) auto

lemma parse_vertices_length:
  "parse_vertices n i s t = Inr (s', t') \<Longrightarrow> length s' \<le> length s"
proof (induction n arbitrary: i s t)
  case 0
  then show ?case by simp
next
  case (Suc n)
  show ?case
  proof (cases "find_vertex s = []")
    case True
    then show ?thesis
      using Suc.prems by simp
  next
    case False
    then obtain s1 p where p: "parse_point (drop 7 (find_vertex s)) = Inr (s1, p)"
      and r: "parse_vertices n (Suc i) s1 (set_point i p t) = Inr (s', t')"
      using Suc.prems by (auto simp add: Let_def split: sum.splits)
    have "length s' \<le> length s1"
      using r by (rule Suc.IH)
    moreover have "length s1 \<le> length (drop 7 (find_vertex s))"
      using p by (rule parse_point_length)
    moreover have "length (drop 7 (find_vertex s)) \<le> length s"
      using find_vertex_length [of s] by simp
    ultimately show ?thesis
      by linarith
  qed
qed

lemma parse_vertices_shorter:
  assumes "parse_vertices (Suc n) i s t = Inr (s', t')" and "s \<noteq> []"
  shows "length s' < length s"
proof (cases "find_vertex s = []")
  case True
  then show ?thesis
    using assms by simp
next
  case False
  then obtain s1 p where p: "parse_point (drop 7 (find_vertex s)) = Inr (s1, p)"
    and r: "parse_vertices n (Suc i) s1 (set_point i p t) = Inr (s', t')"
    using assms(1) by (auto simp add: Let_def split: sum.splits)
  have "length s' \<le> length s1"
    using r by (rule parse_vertices_length)
  moreover have "length s1 \<le> length (drop 7 (find_vertex s))"
    using p by (rule parse_point_length)
  moreover have "length (drop 7 (find_vertex s)) < length (find_vertex s)"
    using False by simp
  moreover note find_vertex_length [of s]
  ultimately show ?thesis
    by linarith
qed

section \<open>The ingesting loop\<close>

text \<open>
  The \<^verbatim>\<open>while (*s && !(tri_index>=MAX_TRIANGLES))\<close> loop of \<^verbatim>\<open>parse_stl\<close>. \<^verbatim>\<open>triangles\<close> is the
  caller's array; a slot index outside it is a write out of bounds. \<^verbatim>\<open>tri_index\<close> never
  exceeds \<^verbatim>\<open>MAX_TRIANGLES\<close>, so the \<^verbatim>\<open>uint32_t\<close> counter is a natural number.
\<close>

function parse_loop :: "string \<Rightarrow> nat \<Rightarrow> triangle3d list \<Rightarrow> error + (nat \<times> triangle3d list)" where
  "parse_loop s tri_index triangles =
     (if s \<noteq> [] \<and> \<not> MAX_TRIANGLES \<le> tri_index
      then (if tri_index < length triangles
            then (case parse_vertices 3 0 s (triangles ! tri_index) of
                    Inl e \<Rightarrow> Inl e
                  | Inr (s', newtri) \<Rightarrow>
                      let triangles = triangles[tri_index := newtri];
                          tri_index = (if \<not> is_null_triangle3d (triangles ! tri_index)
                                       then tri_index + 1 else tri_index)
                      in parse_loop s' tri_index triangles)
            else Inl (WriteOutOfBounds tri_index))
      else Inr (tri_index, triangles))"
  by pat_completeness auto
termination
proof (relation "measure (\<lambda>(s, tri_index, triangles). length s)")
  show "wf (measure (\<lambda>(s :: string, tri_index :: nat, triangles :: triangle3d list). length s))"
    by simp
next
  fix s :: string and tri_index :: nat and triangles :: "triangle3d list"
    and x2 :: "string \<times> triangle3d" and x y xa xb
  assume "s \<noteq> [] \<and> \<not> MAX_TRIANGLES \<le> tri_index"
    and "parse_vertices 3 0 s (triangles ! tri_index) = Inr x2"
    and "(x, y) = x2"
  then have "parse_vertices (Suc 2) 0 s (triangles ! tri_index) = Inr (x, y)" and "s \<noteq> []"
    by (simp_all add: numeral_3_eq_3)
  then have "length x < length s"
    by (rule parse_vertices_shorter)
  then show "((x, xb, xa), s, tri_index, triangles)
      \<in> measure (\<lambda>(s, tri_index, triangles). length s)"
    by simp
qed

declare parse_loop.simps [simp del]

definition parse_stl :: "string \<Rightarrow> triangle3d list \<Rightarrow> error + triangle3d list" where
  "parse_stl stl_base triangles =
     (case parse_loop stl_base 0 triangles of
        Inl e \<Rightarrow> Inl e
      | Inr (tri_index, triangles) \<Rightarrow>
          if tri_index < length triangles
          then Inr (triangles[tri_index := set_null_triangle3d (triangles ! tri_index)])
          else Inl (WriteOutOfBounds tri_index))"

section \<open>Bounding box\<close>

text \<open>\<^verbatim>\<open>extend_box3d\<close>: six signed comparisons, each widening one bound.\<close>

definition extend_box3d :: "box3d \<Rightarrow> point3d \<Rightarrow> box3d" where
  "extend_box3d box p =
     \<lparr>max3 = \<lparr>x3d = (if x3d (max3 box) <s x3d p then x3d p else x3d (max3 box)),
              y3d = (if y3d (max3 box) <s y3d p then y3d p else y3d (max3 box)),
              z3d = (if z3d (max3 box) <s z3d p then z3d p else z3d (max3 box))\<rparr>,
      min3 = \<lparr>x3d = (if x3d p <s x3d (min3 box) then x3d p else x3d (min3 box)),
              y3d = (if y3d p <s y3d (min3 box) then y3d p else y3d (min3 box)),
              z3d = (if z3d p <s z3d (min3 box) then z3d p else z3d (min3 box))\<rparr>\<rparr>"

text \<open>
  The loop of \<^verbatim>\<open>find_bounding_box\<close> walks the array until a null triangle; an array without
  one is read past its end.
\<close>

fun bounding_box_loop :: "triangle3d list \<Rightarrow> box3d \<Rightarrow> error + box3d" where
  "bounding_box_loop [] bbox = Inl ReadOutOfBounds"
| "bounding_box_loop (t # ts) bbox =
     (if \<not> is_null_triangle3d t
      then bounding_box_loop ts
             (extend_box3d (extend_box3d (extend_box3d bbox (p3_0 t)) (p3_1 t)) (p3_2 t))
      else Inr bbox)"

text \<open>\<^verbatim>\<open>bbox.max = bbox.min = triangles[0].points[0];\<close> reads the first slot whatever it holds.\<close>

definition find_bounding_box :: "triangle3d list \<Rightarrow> error + box3d" where
  "find_bounding_box triangles =
     (case triangles of
        [] \<Rightarrow> Inl ReadOutOfBounds
      | t # ts \<Rightarrow> bounding_box_loop triangles \<lparr>max3 = p3_0 t, min3 = p3_0 t\<rparr>)"

text \<open>
  The vertices of a list of triangles, and what the bounding-box property says of a box:
  it encloses a point on every axis (signed comparison), and on one axis the bounds are
  tight for a set of values when they enclose all of them and are among them.
\<close>

definition vertices :: "triangle3d list \<Rightarrow> point3d list" where
  "vertices ts = concat (map (\<lambda>t. [p3_0 t, p3_1 t, p3_2 t]) ts)"

definition within :: "fixed_t \<Rightarrow> fixed_t \<Rightarrow> fixed_t \<Rightarrow> bool" where
  "within lo hi v = (lo \<le>s v \<and> v \<le>s hi)"

definition encloses :: "box3d \<Rightarrow> point3d \<Rightarrow> bool" where
  "encloses box p =
     (within (x3d (min3 box)) (x3d (max3 box)) (x3d p)
      \<and> within (y3d (min3 box)) (y3d (max3 box)) (y3d p)
      \<and> within (z3d (min3 box)) (z3d (max3 box)) (z3d p))"

text \<open>One axis: the bounds enclose the values seen and are among them.\<close>

definition tight :: "fixed_t \<Rightarrow> fixed_t \<Rightarrow> fixed_t set \<Rightarrow> bool" where
  "tight lo hi V = ((\<forall>v\<in>V. within lo hi v) \<and> lo \<in> V \<and> hi \<in> V)"

definition box_tight :: "box3d \<Rightarrow> point3d set \<Rightarrow> bool" where
  "box_tight box S =
     (tight (x3d (min3 box)) (x3d (max3 box)) (x3d ` S)
      \<and> tight (y3d (min3 box)) (y3d (max3 box)) (y3d ` S)
      \<and> tight (z3d (min3 box)) (z3d (max3 box)) (z3d ` S))"



section \<open>Draw box and scaler\<close>



section \<open>Back-face test\<close>

definition is_front_facing :: "triangle2d \<Rightarrow> bool" where
  "is_front_facing triangle =
     (let x1 = subfix (x2d (p2_0 triangle)) (x2d (p2_1 triangle));
          y1 = subfix (y2d (p2_0 triangle)) (y2d (p2_1 triangle));
          x2 = subfix (x2d (p2_1 triangle)) (x2d (p2_2 triangle));
          y2 = subfix (y2d (p2_1 triangle)) (y2d (p2_2 triangle));
          wedge = mulfix x1 y2 - mulfix x2 y1
      in if wedge <s 0 then False else True)"

text \<open>
  The exact wedge of the specification, over the integers: \<open>e1 = p0 - p1\<close>, \<open>e2 = p1 - p2\<close>,
  \<open>e1.x * e2.y - e2.x * e1.y\<close> on the raw coordinates, without rounding or wrap-around.
\<close>

definition wedge_exact :: "triangle2d \<Rightarrow> int" where
  "wedge_exact t =
     (sint (x2d (p2_0 t)) - sint (x2d (p2_1 t))) * (sint (y2d (p2_1 t)) - sint (y2d (p2_2 t)))
     - (sint (x2d (p2_1 t)) - sint (x2d (p2_2 t))) * (sint (y2d (p2_0 t)) - sint (y2d (p2_1 t)))"

text \<open>
  Twice the signed area of the triangle by the shoelace formula on \<open>p1 - p0\<close> and \<open>p2 - p0\<close>.
  With the screen's y axis pointing down, a positive value is a clockwise winding.
\<close>

definition signed_area2 :: "triangle2d \<Rightarrow> int" where
  "signed_area2 t =
     (sint (x2d (p2_1 t)) - sint (x2d (p2_0 t))) * (sint (y2d (p2_2 t)) - sint (y2d (p2_0 t)))
     - (sint (x2d (p2_2 t)) - sint (x2d (p2_0 t))) * (sint (y2d (p2_1 t)) - sint (y2d (p2_0 t)))"

section \<open>Sample geometry\<close>




definition small_clockwise :: triangle2d where
  "small_clockwise =
     \<lparr>p2_0 = \<lparr>x2d = 0, y2d = 0\<rparr>,
      p2_1 = \<lparr>x2d = 0xA0000, y2d = 0\<rparr>,
      p2_2 = \<lparr>x2d = 0xA0000, y2d = 0xA0000\<rparr>\<rparr>"

definition sliver :: triangle2d where
  "sliver = \<lparr>p2_0 = \<lparr>x2d = 0, y2d = 1\<rparr>, p2_1 = \<lparr>x2d = 0, y2d = 0\<rparr>,
              p2_2 = \<lparr>x2d = - 1, y2d = 0\<rparr>\<rparr>"

definition large_clockwise :: triangle2d where
  "large_clockwise =
     \<lparr>p2_0 = \<lparr>x2d = int_to_fix 0, y2d = int_to_fix 0\<rparr>,
      p2_1 = \<lparr>x2d = int_to_fix 200, y2d = int_to_fix 0\<rparr>,
      p2_2 = \<lparr>x2d = int_to_fix 200, y2d = int_to_fix 200\<rparr>\<rparr>"







section \<open>Sample STL text\<close>

text \<open>
  One facet as an STL exporter writes it, in three pieces, and a facet whose nine coordinates
  are all zero. They serve as concrete inputs.
\<close>

definition facet_head :: string where
  "facet_head = ''facet normal 0 0 1'' @ [newline] @ '' outer loop'' @ [newline]"

definition facet_vertices :: string where
  "facet_vertices = ''  vertex 1 0 0'' @ [newline] @ ''  vertex 0 1 0'' @ [newline]
     @ ''  vertex 0 0 1'' @ [newline]"

definition facet_tail :: string where
  "facet_tail = '' endloop'' @ [newline] @ ''endfacet'' @ [newline]"

definition facet_text :: string where
  "facet_text = facet_head @ facet_vertices @ facet_tail"

definition unit_triangle :: triangle3d where
  "unit_triangle =
     \<lparr>p3_0 = \<lparr>x3d = 0x10000, y3d = 0, z3d = 0\<rparr>,
      p3_1 = \<lparr>x3d = 0, y3d = 0x10000, z3d = 0\<rparr>,
      p3_2 = \<lparr>x3d = 0, y3d = 0, z3d = 0x10000\<rparr>\<rparr>"

definition zero_vertices :: string where
  "zero_vertices = ''  vertex 0 0.0 0'' @ [newline] @ ''  vertex 0 0 0'' @ [newline]
     @ ''  vertex -0 0 0'' @ [newline]"

definition zero_facet_text :: string where
  "zero_facet_text = facet_head @ zero_vertices @ facet_tail"

section \<open>The multiply computes the floor of the exact product\<close>

lemma or_hi_lo: "push_bit 16 (h :: 32 word) OR drop_bit 16 (l :: 32 word) = push_bit 16 h + drop_bit 16 l"
proof (rule disjunctive_add [symmetric])
  fix n
  show "\<not> bit (push_bit 16 h) n \<or> \<not> bit (drop_bit 16 l) n"
  proof (cases "n < 16")
    case True
    then show ?thesis by (simp add: bit_push_bit_iff)
  next
    case False
    then have "\<not> 16 + n < LENGTH(32)" by simp
    then have "\<not> bit l (16 + n)"
      using bit_imp_le_length [of l "16 + n"] by blast
    then show ?thesis by (simp add: bit_drop_bit_eq)
  qed
qed

lemma hi_part: "push_bit 16 (signed_drop_bit 16 (s :: 32 word)) = s - take_bit 16 s"
proof -
  have "push_bit 16 (signed_drop_bit 16 s) + take_bit 16 s = s"
  proof -
    have "push_bit 16 (signed_drop_bit 16 s) + take_bit 16 s = push_bit 16 (signed_drop_bit 16 s) OR take_bit 16 s"
      by (rule disjunctive_add) (auto simp add: bit_simps)
    also have "\<dots> = s"
      by (rule bit_word_eqI) (auto simp add: bit_simps)
    finally show ?thesis .
  qed
  then show ?thesis by (simp add: algebra_simps)
qed

lemma and_ffff: "(w :: 32 word) AND 0xFFFF = take_bit 16 w"
proof -
  have "(0xFFFF :: 32 word) = mask 16" by (simp add: mask_eq_exp_minus_1)
  then show ?thesis by (simp add: take_bit_eq_mask)
qed



lemma drop16: "drop_bit 16 w = word_of_int (uint w div 2 ^ 16)" for w :: "32 word"
proof -
  have "uint (drop_bit 16 w) = uint w div 2 ^ 16"
    by (simp add: drop_bit_eq_div uint_div)
  then show ?thesis
    by (metis word_of_int_uint)
qed

lemma t16_bounds: "0 \<le> uint (take_bit 16 S)" "uint (take_bit 16 S) < 2 ^ 16" for S :: "32 word"
  unfolding unsigned_take_bit_eq by (simp_all add: take_bit_eq_mod)

lemma uint_push16: "uint (push_bit 16 S) = uint (take_bit 16 S) * 2 ^ 16" for S :: "32 word"
proof -
  have "uint (push_bit 16 S) = take_bit 32 (push_bit 16 (uint S))"
    by (simp add: unsigned_push_bit_eq)
  also have "\<dots> = push_bit 16 (take_bit 16 (uint S))"
    by (simp add: take_bit_push_bit)
  also have "\<dots> = uint (take_bit 16 S) * 2 ^ 16"
    by (simp add: unsigned_take_bit_eq push_bit_eq_mult)
  finally show ?thesis .
qed

lemma lo_rhs: "drop_bit 16 BD + take_bit 16 S = word_of_int ((uint BD + uint (take_bit 16 S) * 2 ^ 16) div 2 ^ 16)"
  for BD S :: "32 word"
proof -
  have "(uint BD + uint (take_bit 16 S) * 2 ^ 16) div 2 ^ 16 = uint BD div 2 ^ 16 + uint (take_bit 16 S)"
    by simp
  then show ?thesis
    unfolding drop16 [of BD] by simp
qed

lemma lo_uint: "uint (BD + push_bit 16 S) = (uint BD + uint (take_bit 16 S) * 2 ^ 16) mod 2 ^ 32"
  for BD S :: "32 word"
  unfolding uint_word_ariths uint_push16 by simp

lemma lo_carry: "BD + push_bit 16 S < BD \<longleftrightarrow> 2 ^ 32 \<le> uint BD + uint (take_bit 16 S) * 2 ^ 16"
  for BD S :: "32 word"
proof -
  have "BD \<le> BD + push_bit 16 S \<longleftrightarrow> uint BD + uint (take_bit 16 S) * 2 ^ 16 < 2 ^ 32"
    unfolding no_olen_add uint_push16 by simp
  then show ?thesis
    unfolding not_le [symmetric] by simp
qed

lemma div_sub_mult: "m \<noteq> 0 \<Longrightarrow> (x - k * m) div m = x div m - k" for x k m :: int
  using div_mult_self1 [of m x "- k"] by simp

lemma sub_div16: "(X - 2 ^ 32) div 2 ^ 16 = X div 2 ^ 16 - 2 ^ 16" for X :: int
proof -
  have "(2 :: int) ^ 32 = 2 ^ 16 * 2 ^ 16"
    by simp
  then show ?thesis
    using div_sub_mult [of "2 ^ 16" X "2 ^ 16"] by simp
qed

lemma lo_part:
  fixes BD S :: "32 word"
  shows "push_bit 16 (if BD + push_bit 16 S < BD then 1 else 0 :: 32 word) + drop_bit 16 (BD + push_bit 16 S)
     = drop_bit 16 BD + take_bit 16 S"
proof -
  define X where "X = uint BD + uint (take_bit 16 S) * 2 ^ 16"
  have bd: "0 \<le> uint BD" "uint BD < 2 ^ 32" using uint_lt2p [of BD] by simp_all
  note t = t16_bounds [of S]
  have rhs: "drop_bit 16 BD + take_bit 16 S = word_of_int (X div 2 ^ 16)"
    unfolding X_def by (rule lo_rhs)
  have lo: "uint (BD + push_bit 16 S) = X mod 2 ^ 32"
    unfolding X_def by (rule lo_uint)
  have carry: "BD + push_bit 16 S < BD \<longleftrightarrow> 2 ^ 32 \<le> X"
    unfolding X_def by (rule lo_carry)
  have "uint (take_bit 16 S) * 2 ^ 16 < 2 ^ 16 * 2 ^ 16"
    using t by (intro mult_strict_right_mono) simp_all
  then have Xlt: "X < 2 * 2 ^ 32"
    unfolding X_def using bd by simp
  have X0: "0 \<le> X"
    unfolding X_def using bd t by simp
  show ?thesis
  proof (cases "2 ^ 32 \<le> X")
    case True
    have "X mod 2 ^ 32 = (X - 2 ^ 32) mod 2 ^ 32"
      by (rule mod_pos_geq) (use True in simp_all)
    also have "\<dots> = X - 2 ^ 32"
      by (rule mod_pos_pos_trivial) (use True Xlt in simp_all)
    finally have m: "X mod 2 ^ 32 = X - 2 ^ 32" .
    have d: "drop_bit 16 (BD + push_bit 16 S) = word_of_int (X div 2 ^ 16 - 2 ^ 16)"
      unfolding drop16 [of "BD + push_bit 16 S"] lo m sub_div16 ..
    have p: "push_bit 16 (if BD + push_bit 16 S < BD then 1 else 0 :: 32 word) = word_of_int (2 ^ 16)"
      using True carry by simp
    have "word_of_int (2 ^ 16) + word_of_int (X div 2 ^ 16 - 2 ^ 16) = (word_of_int (2 ^ 16 + (X div 2 ^ 16 - 2 ^ 16)) :: 32 word)"
      by (simp only: of_int_add)
    also have "2 ^ 16 + (X div 2 ^ 16 - 2 ^ 16) = X div 2 ^ 16"
      by simp
    finally show ?thesis
      unfolding rhs d p .
  next
    case False
    with X0 have m: "X mod 2 ^ 32 = X"
      by simp
    have d: "drop_bit 16 (BD + push_bit 16 S) = word_of_int (X div 2 ^ 16)"
      unfolding drop16 [of "BD + push_bit 16 S"] lo m ..
    have p: "push_bit 16 (if BD + push_bit 16 S < BD then 1 else 0 :: 32 word) = 0"
      using False carry by simp
    show ?thesis
      unfolding rhs d p by simp
  qed
qed


lemma mulfix_words:
  "mulfix a b =
     push_bit 16 (signed_drop_bit 16 a * signed_drop_bit 16 b)
     + (signed_drop_bit 16 a * take_bit 16 b + signed_drop_bit 16 b * take_bit 16 a)
     + drop_bit 16 (take_bit 16 a * take_bit 16 b)"
proof -
  define A where "A = signed_drop_bit 16 a"
  define C where "C = signed_drop_bit 16 b"
  define B where "B = take_bit 16 a"
  define D where "D = take_bit 16 b"
  define S where "S = A * D + C * B"
  define BD where "BD = B * D"
  define c :: "32 word" where "c = (if BD + push_bit 16 S < BD then 1 else 0)"
  have "mulfix a b = push_bit 16 (A * C + signed_drop_bit 16 S + c) OR drop_bit 16 (BD + push_bit 16 S)"
    by (simp add: mulfix_def Let_def and_ffff A_def C_def B_def D_def S_def BD_def c_def)
  also have "\<dots> = push_bit 16 (A * C) + push_bit 16 (signed_drop_bit 16 S)
      + (push_bit 16 c + drop_bit 16 (BD + push_bit 16 S))"
    unfolding or_hi_lo by (simp add: push_bit_add)
  also have "\<dots> = push_bit 16 (A * C) + (S - take_bit 16 S) + (drop_bit 16 BD + take_bit 16 S)"
    unfolding hi_part c_def lo_part ..
  also have "\<dots> = push_bit 16 (A * C) + S + drop_bit 16 BD"
    by simp
  finally show ?thesis
    unfolding A_def C_def B_def D_def S_def BD_def .
qed

lemma split_fix: "sint a = sint (signed_drop_bit 16 a) * 2 ^ 16 + uint (take_bit 16 a)" for a :: "32 word"
proof -
  have "uint (take_bit 16 a) = take_bit 16 (take_bit 32 (sint a))"
    unfolding unsigned_take_bit_eq by (simp add: uint_sint)
  also have "\<dots> = take_bit 16 (sint a)"
    by simp
  also have "\<dots> = sint a mod 2 ^ 16"
    by (simp add: take_bit_eq_mod)
  finally have lo: "uint (take_bit 16 a) = sint a mod 2 ^ 16" .
  have hi: "sint (signed_drop_bit 16 a) = sint a div 2 ^ 16"
    by (simp add: sint_signed_drop_bit_eq drop_bit_eq_div)
  show ?thesis
    unfolding lo hi by simp
qed

lemma prod_split: "(p * k + q) * (r * k + s) = (p * r * k + p * s + r * q) * k + q * s" for p q r s k :: int
  by (simp add: algebra_simps)

lemma div_split: "0 < k \<Longrightarrow> (m * k + n) div k = m + n div k" for m n k :: int
  by simp

lemma mulfix_eq: "mulfix a b = word_of_int (sint a * sint b div 2 ^ 16)"
proof -
  define A where "A = signed_drop_bit 16 a"
  define C where "C = signed_drop_bit 16 b"
  define B where "B = take_bit 16 a"
  define D where "D = take_bit 16 b"
  have a: "sint a = sint A * 2 ^ 16 + uint B"
    unfolding A_def B_def by (rule split_fix)
  have b: "sint b = sint C * 2 ^ 16 + uint D"
    unfolding C_def D_def by (rule split_fix)
  have B: "0 \<le> uint B" "uint B < 2 ^ 16"
    unfolding B_def unsigned_take_bit_eq by (simp_all add: take_bit_eq_mod)
  have D: "0 \<le> uint D" "uint D < 2 ^ 16"
    unfolding D_def unsigned_take_bit_eq by (simp_all add: take_bit_eq_mod)
  have "uint B * uint D < 2 ^ 16 * 2 ^ 16"
    using B D by (intro mult_strict_mono) simp_all
  then have "uint B * uint D < 2 ^ LENGTH(32)"
    by simp
  then have BD: "uint (B * D) = uint B * uint D"
    by (simp only: uint_mult_lem)
  have "sint a * sint b div 2 ^ 16 = sint A * sint C * 2 ^ 16 + sint A * uint D + sint C * uint B + uint B * uint D div 2 ^ 16"
    unfolding a b prod_split by (rule div_split) simp
  also have "word_of_int \<dots> = (A * C * 2 ^ 16 + A * D + C * B + word_of_int (uint (B * D) div 2 ^ 16) :: 32 word)"
    unfolding BD by (simp only: of_int_add of_int_mult of_int_power of_int_numeral word_of_int_uint of_int_sint signed_eq_0_iff scast_id)
  also have "\<dots> = push_bit 16 (A * C) + (A * D + C * B) + drop_bit 16 (B * D)"
    unfolding drop16 [symmetric] by (simp only: push_bit_eq_mult add.assoc)
  finally show ?thesis
    unfolding mulfix_words A_def C_def B_def D_def by (rule sym)
qed


lemma sint_bounds32: "- (2 ^ 31) \<le> sint a" "sint a < 2 ^ 31" for a :: "32 word"
  using sint_ge [of a] sint_lt [of a] by simp_all

lemma wide_product: "sint ((scast a :: 64 word) * scast b) = sint a * sint b" for a b :: "32 word"
proof -
  have up: "sint (scast w :: 64 word) = sint w" for w :: "32 word"
    by (rule sint_up_scast) (simp add: is_up)
  have "\<bar>sint a * sint b\<bar> \<le> 2 ^ 31 * 2 ^ 31"
    unfolding abs_mult using sint_bounds32 [of a] sint_bounds32 [of b]
    by (intro mult_mono) simp_all
  then have "- (2 ^ 63) \<le> sint a * sint b" "sint a * sint b < 2 ^ 63"
    by simp_all
  then have "signed_take_bit 63 (sint a * sint b) = sint a * sint b"
    by (simp add: signed_take_bit_int_eq_self)
  then show ?thesis
    by (simp add: sint_word_ariths up)
qed

lemma mulfix_wide_eq: "mulfix_wide a b = word_of_int (sint a * sint b div 2 ^ 16)"
proof -
  define w :: "64 word" where "w = signed_drop_bit 16 (scast a * scast b)"
  have "sint w = sint a * sint b div 2 ^ 16"
    unfolding w_def sint_signed_drop_bit_eq wide_product by (simp add: drop_bit_eq_div)
  moreover have "(ucast w :: 32 word) = word_of_int (sint w)"
  proof -
    have "(ucast w :: 32 word) = word_of_int (uint w)"
      by simp
    also have "\<dots> = word_of_int (sint w)"
      unfolding word_of_int_eq_iff uint_sint by simp
    finally show ?thesis .
  qed
  ultimately show ?thesis
    by (simp add: mulfix_wide_def w_def)
qed

text \<open>
  Claim C10. For all 32-bit inputs, \<^verbatim>\<open>mulfix\<close> (split operands, four partial products,
  carry from the low half) returns the low 32 bits of the exact 64-bit signed product
  shifted right arithmetically by 16, also when the product overflows 32 bits.
\<close>

theorem mulfix_refines_wide: "mulfix a b = mulfix_wide a b"
  by (simp only: mulfix_eq mulfix_wide_eq)

text \<open>
  Claim C9. Multiplying any 32-bit fixed-point value by \<^verbatim>\<open>int_to_fix(1)\<close> returns it
  unchanged.
\<close>

theorem mulfix_one: "mulfix x (int_to_fix 1) = x"
proof -
  have "sint (int_to_fix 1) = 2 ^ 16"
    by (simp add: int_to_fix_def)
  then have "mulfix x (int_to_fix 1) = word_of_int (sint x)"
    unfolding mulfix_eq by simp
  then show ?thesis
    by simp
qed

section \<open>The divide computes the truncated quotient\<close>


lemma or_pow_nat: "2 ^ Suc j dvd (q :: nat) \<Longrightarrow> q OR 2 ^ j = q + 2 ^ j"
proof -
  assume "2 ^ Suc j dvd q"
  then obtain m where q: "q = push_bit (j + 1) m"
    by (auto simp add: push_bit_eq_mult dvd_def mult.commute)
  have "\<not> bit q j"
    unfolding q bit_push_bit_iff by simp
  then have "q AND 2 ^ j = 0"
    by (intro bit_eqI) (auto simp add: bit_and_iff bit_exp_iff)
  then show ?thesis
    by (simp add: disjunctive_add_eq_or)
qed

lemma unat_or_bit:
  fixes quot qbit :: "32 word"
  assumes "unat qbit = 2 ^ j" and "2 ^ Suc j dvd unat quot"
  shows "unat (quot OR qbit) = unat quot + 2 ^ j"
proof -
  have "unat (quot OR qbit) = unat quot OR unat qbit"
    by (simp add: unsigned_or_eq)
  then show ?thesis
    using assms by (simp add: or_pow_nat)
qed

lemma unat_shl1:
  fixes w :: "32 word"
  assumes "unat w < 2 ^ 31"
  shows "unat (push_bit 1 w) = 2 * unat w"
proof -
  have "unat (push_bit 1 w) = unat (2 * w)"
    by (simp add: push_bit_eq_mult mult.commute)
  also have "\<dots> = 2 * unat w mod 2 ^ 32"
    by (simp add: unat_word_ariths)
  also have "\<dots> = 2 * unat w"
    using assms by simp
  finally show ?thesis .
qed

lemma unat_shr1: "unat (drop_bit 1 w) = unat w div 2" for w :: "32 word"
  by (simp add: drop_bit_eq_div unat_div)

lemma dvd_half: "2 ^ Suc k dvd (n :: nat) \<Longrightarrow> 2 ^ k dvd n"
proof -
  assume "2 ^ Suc k dvd n"
  then have "2 ^ k * 2 dvd n"
    by (simp add: mult.commute)
  then show ?thesis
    by (rule dvd_mult_left)
qed

lemma nat_div_sub:
  fixes a d k :: nat
  assumes "0 < d" and "k * d \<le> a"
  shows "(a - k * d) div d = a div d - k"
proof -
  have "a div d = ((a - k * d) + k * d) div d"
    using assms by simp
  also have "\<dots> = (a - k * d) div d + k"
    using assms(1) by simp
  finally show ?thesis
    by simp
qed

lemma divfix_loop_zero: "divfix_loop d r 0 q = q"
  by simp

lemma divfix_loop_spec:
  fixes d r qbit quot :: "32 word"
  assumes "unat qbit = 2 ^ j" and "unat r < 2 * unat d" and "unat d \<le> 2 ^ 31"
    and "2 ^ Suc j dvd unat quot"
  shows "unat (divfix_loop d r qbit quot) = unat quot + unat r * 2 ^ j div unat d"
  using assms
proof (induction j arbitrary: r qbit quot)
  case 0
  have "unat (drop_bit 1 qbit) = unat qbit div 2"
    by (rule unat_shr1)
  with 0 have "unat (drop_bit 1 qbit) = 0"
    by simp
  then have qb0: "drop_bit 1 qbit = 0"
    by (simp only: unat_eq_0)
  have qb: "qbit \<noteq> 0"
    using 0 by auto
  show ?case
  proof (cases "r = 0")
    case True
    then show ?thesis by simp
  next
    case r: False
    show ?thesis
    proof (cases "d \<le> r")
      case True
      then have "unat d \<le> unat r" by (simp add: word_le_nat_alt)
      with 0 have "unat r div unat d = 1"
        by (intro div_nat_eqI) simp_all
      moreover have "unat (quot OR qbit) = unat quot + 1"
        using unat_or_bit [of qbit 0 quot] 0 by simp
      ultimately show ?thesis
        using True r qb qb0 by (subst divfix_loop.simps) simp
    next
      case False
      then have "unat r < unat d" by (simp add: word_le_nat_alt)
      then have "unat r div unat d = 0" by simp
      then show ?thesis
        using False r qb qb0 by (subst divfix_loop.simps) simp
    qed
  qed
next
  case (Suc j)
  have "unat (drop_bit 1 qbit) = unat qbit div 2"
    by (rule unat_shr1)
  with Suc.prems have qb2: "unat (drop_bit 1 qbit) = 2 ^ j"
    by simp
  have qb: "qbit \<noteq> 0"
    using Suc.prems by auto
  have dpos: "0 < unat d" using Suc.prems by simp
  show ?case
  proof (cases "r = 0")
    case True
    then show ?thesis by simp
  next
    case r: False
    show ?thesis
    proof (cases "d \<le> r")
      case True
      then have le: "unat d \<le> unat r" by (simp add: word_le_nat_alt)
      have sub: "unat (r - d) = unat r - unat d"
        using True by (simp add: unat_sub)
      have "unat (r - d) < 2 ^ 31"
        unfolding sub using Suc.prems le by simp
      then have sh: "unat (push_bit 1 (r - d)) = 2 * (unat r - unat d)"
        unfolding sub [symmetric] by (rule unat_shl1)
      have q': "unat (quot OR qbit) = unat quot + 2 ^ Suc j"
        using unat_or_bit [of qbit "Suc j" quot] Suc.prems by simp
      have dv: "2 ^ Suc j dvd unat (quot OR qbit)"
        unfolding q' using dvd_half [OF Suc.prems(4)] by (rule dvd_add) (rule dvd_refl)
      have "unat (divfix_loop d (push_bit 1 (r - d)) (drop_bit 1 qbit) (quot OR qbit))
          = unat (quot OR qbit) + unat (push_bit 1 (r - d)) * 2 ^ j div unat d"
        by (rule Suc.IH) (use qb2 sh Suc.prems le dv in simp_all)
      also have "\<dots> = unat quot + 2 ^ Suc j + (unat r - unat d) * 2 ^ Suc j div unat d"
        unfolding q' sh by (simp add: mult.assoc mult.left_commute)
      also have "(unat r - unat d) * 2 ^ Suc j = unat r * 2 ^ Suc j - 2 ^ Suc j * unat d"
        by (simp add: algebra_simps)
      also have "(unat r * 2 ^ Suc j - 2 ^ Suc j * unat d) div unat d = unat r * 2 ^ Suc j div unat d - 2 ^ Suc j"
        by (rule nat_div_sub) (use dpos le in simp_all)
      also have "unat quot + 2 ^ Suc j + (unat r * 2 ^ Suc j div unat d - 2 ^ Suc j) = unat quot + unat r * 2 ^ Suc j div unat d"
      proof -
        have "2 ^ Suc j * unat d \<le> unat r * 2 ^ Suc j"
          using le by simp
        then have "2 ^ Suc j * unat d div unat d \<le> unat r * 2 ^ Suc j div unat d"
          by (rule div_le_mono)
        then have "2 ^ Suc j \<le> unat r * 2 ^ Suc j div unat d"
          using dpos by simp
        then show ?thesis by simp
      qed
      finally show ?thesis
        using True r qb by (subst divfix_loop.simps) simp
    next
      case False
      then have lt: "unat r < unat d" by (simp add: word_le_nat_alt)
      then have "unat r < 2 ^ 31" using Suc.prems by simp
      then have sh: "unat (push_bit 1 r) = 2 * unat r"
        by (rule unat_shl1)
      have dv: "2 ^ Suc j dvd unat quot"
        using Suc.prems(4) by (rule dvd_half)
      have "unat (divfix_loop d (push_bit 1 r) (drop_bit 1 qbit) quot)
          = unat quot + unat (push_bit 1 r) * 2 ^ j div unat d"
        by (rule Suc.IH) (use qb2 sh Suc.prems lt dv in simp_all)
      also have "\<dots> = unat quot + unat r * 2 ^ Suc j div unat d"
        unfolding sh by (simp add: mult.assoc mult.left_commute)
      finally show ?thesis
        using False r qb by (subst divfix_loop.simps) simp
    qed
  qed
qed


lemma divfix_align_spec:
  fixes r d q :: "32 word"
  assumes "0 < unat d" and "unat r \<le> 2 ^ 31"
  shows "\<exists>k. divfix_align r d q = Some (push_bit k d, push_bit k q)
      \<and> unat (push_bit k d) = unat d * 2 ^ k
      \<and> unat r \<le> unat d * 2 ^ k
      \<and> (k = 0 \<or> unat d * 2 ^ (k - 1) < unat r)"
  using assms
proof (induction "unat r - unat d" arbitrary: d q rule: less_induct)
  case less
  show ?case
  proof (cases "d < r")
    case False
    then have "unat r \<le> unat d"
      by (simp add: word_less_nat_alt)
    moreover have "divfix_align r d q = Some (d, q)"
      using False by (subst divfix_align.simps) simp
    ultimately have "divfix_align r d q = Some (push_bit 0 d, push_bit 0 q)
      \<and> unat (push_bit 0 d) = unat d * 2 ^ 0
      \<and> unat r \<le> unat d * 2 ^ 0
      \<and> (0 = (0 :: nat) \<or> unat d * 2 ^ (0 - 1) < unat r)"
      by simp
    then show ?thesis by blast
  next
    case True
    then have lt: "unat d < unat r"
      by (simp add: word_less_nat_alt)
    with less.prems have "unat d < 2 ^ 31"
      by simp
    then have sh: "unat (push_bit 1 d) = 2 * unat d"
      by (rule unat_shl1)
    have "unat r - unat (push_bit 1 d) < unat r - unat d"
      unfolding sh using lt less.prems by simp
    moreover have "0 < unat (push_bit 1 d)"
      unfolding sh using less.prems by simp
    ultimately obtain k where k:
      "divfix_align r (push_bit 1 d) (push_bit 1 q) = Some (push_bit k (push_bit 1 d), push_bit k (push_bit 1 q))"
      "unat (push_bit k (push_bit 1 d)) = unat (push_bit 1 d) * 2 ^ k"
      "unat r \<le> unat (push_bit 1 d) * 2 ^ k"
      "k = 0 \<or> unat (push_bit 1 d) * 2 ^ (k - 1) < unat r"
      using less.hyps [of "push_bit 1 d" "push_bit 1 q"] less.prems(2) by blast
    have pp: "push_bit k (push_bit 1 w) = push_bit (Suc k) w" for w :: "32 word"
      by (simp add: push_bit_eq_mult)
    have 1: "divfix_align r d q = Some (push_bit (Suc k) d, push_bit (Suc k) q)"
      using True k(1) unfolding pp by (subst divfix_align.simps) simp
    have 2: "unat (push_bit (Suc k) d) = unat d * 2 ^ Suc k"
      using k(2) unfolding pp sh by simp
    have 3: "unat r \<le> unat d * 2 ^ Suc k"
      using k(3) unfolding sh by simp
    have 4: "unat d * 2 ^ (Suc k - 1) < unat r"
    proof (cases "k = 0")
      case True
      then show ?thesis using lt by simp
    next
      case False
      then obtain k' where "k = Suc k'"
        by (cases k) simp_all
      then show ?thesis
        using k(4) unfolding sh by simp
    qed
    from 1 2 3 4 show ?thesis by blast
  qed
qed

lemma unat_absfix: "unat (absfix a) = nat \<bar>sint a\<bar>"
proof -
  have w: "uint (word_of_int k :: 32 word) = k" if "0 \<le> k" "k < 2 ^ 32" for k
    using that by (simp add: uint_word_of_int_eq take_bit_int_eq_self)
  have b: "- (2 ^ 31) \<le> sint a" "sint a < 2 ^ 31"
    using sint_ge [of a] sint_lt [of a] by simp_all
  show ?thesis
  proof (cases "0 \<le> sint a")
    case True
    then have "absfix a = word_of_int (sint a)"
      by (simp add: absfix_def word_sle_eq)
    then have "uint (absfix a) = sint a"
      using w [of "sint a"] True b by simp
    then show ?thesis
      using True by (simp add: unat_eq_nat_uint)
  next
    case False
    then have "absfix a = - word_of_int (sint a)"
      by (simp add: absfix_def word_sle_eq)
    then have "absfix a = word_of_int (- sint a)"
      by simp
    then have "uint (absfix a) = - sint a"
      using w [of "- sint a"] False b by simp
    then show ?thesis
      using False by (simp add: unat_eq_nat_uint)
  qed
qed

lemma sign_test: "(a XOR b) AND 0x80000000 \<noteq> 0 \<longleftrightarrow> (sint a < 0) \<noteq> (sint b < 0)" for a b :: "32 word"
proof -
  have m: "sint w < 0 \<longleftrightarrow> bit w 31" for w :: "32 word"
    using bit_last_iff [of w] by simp
  have "(0x80000000 :: 32 word) = 2 ^ 31"
    by simp
  then have "(a XOR b) AND 0x80000000 \<noteq> 0 \<longleftrightarrow> bit (a XOR b) 31"
    by (simp only: and_exp_eq_0_iff_not_bit) simp
  then show ?thesis
    by (simp add: m bit_xor_iff)
qed


lemma top_bit_test: "d AND 0x80000000 \<noteq> 0 \<longleftrightarrow> 2 ^ 31 \<le> unat d" for d :: "32 word"
proof -
  have "(0x80000000 :: 32 word) = 2 ^ 31"
    by simp
  then have "d AND 0x80000000 \<noteq> 0 \<longleftrightarrow> bit d 31"
    by (simp only: and_exp_eq_0_iff_not_bit) simp
  also have "\<dots> \<longleftrightarrow> bit (unat d) 31"
    by (simp add: bit_unsigned_iff)
  also have "\<dots> \<longleftrightarrow> odd (unat d div 2 ^ 31)"
    by (simp only: bit_iff_odd)
  also have "\<dots> \<longleftrightarrow> 2 ^ 31 \<le> unat d"
  proof -
    have "unat d < 2 ^ 32"
      using unsigned_less [of d] by simp
    then have "unat d div 2 ^ 31 < 2"
      by (simp add: less_mult_imp_div_less)
    then have "unat d div 2 ^ 31 = 0 \<or> unat d div 2 ^ 31 = 1"
      by auto
    then show ?thesis
      by (auto simp add: div_eq_0_iff) 
  qed
  finally show ?thesis .
qed


lemma quot_scale: "0 < c \<Longrightarrow> (a * c) div (b * c) = a div b" for a b c :: nat
  by simp

lemma divfix_magnitude:
  fixes a b :: "32 word"
  defines "R \<equiv> unat (absfix a)" and "D \<equiv> unat (absfix b)"
  assumes D: "0 < D" and Q: "R * 2 ^ 16 div D < 2 ^ 31"
  shows "\<exists>res. divfix a b = Some (if (a XOR b) AND 0x80000000 \<noteq> 0 then - res else res)
      \<and> unat res = R * 2 ^ 16 div D"
proof -
  have R31: "R \<le> 2 ^ 31"
    unfolding R_def unat_absfix using sint_ge [of a] sint_lt [of a] by simp
  have D31: "D \<le> 2 ^ 31"
    unfolding D_def unat_absfix using sint_ge [of b] sint_lt [of b] by simp
  obtain k where k:
    "divfix_align (absfix a) (absfix b) 0x10000 = Some (push_bit k (absfix b), push_bit k 0x10000)"
    "unat (push_bit k (absfix b)) = D * 2 ^ k"
    "R \<le> D * 2 ^ k"
    "k = 0 \<or> D * 2 ^ (k - 1) < R"
    using divfix_align_spec [of "absfix b" "absfix a" "0x10000"] D R31
    unfolding R_def D_def by blast
  define d where "d = push_bit k (absfix b)"
  define qb :: "32 word" where "qb = push_bit k 0x10000"
  have k15: "k \<le> 15"
  proof (rule ccontr)
    assume "\<not> k \<le> 15"
    then have "15 \<le> k - 1" "k \<noteq> 0"
      by simp_all
    then have "(2 :: nat) ^ 15 \<le> 2 ^ (k - 1)"
      by (intro power_increasing) simp_all
    then have "D * 2 ^ 15 \<le> D * 2 ^ (k - 1)"
      by (rule mult_le_mono2)
    moreover have "D * 2 ^ (k - 1) < R"
      using k(4) \<open>k \<noteq> 0\<close> by blast
    ultimately have "D * 2 ^ 15 < R"
      by (rule le_less_trans)
    then have "D * 2 ^ 15 * 2 ^ 16 \<le> R * 2 ^ 16"
      by simp
    then have "2 ^ 31 * D \<le> R * 2 ^ 16"
      by (simp add: mult.commute)
    then have "2 ^ 31 * D div D \<le> R * 2 ^ 16 div D"
      by (rule div_le_mono)
    then have "2 ^ 31 \<le> R * 2 ^ 16 div D"
      using D by simp
    with Q show False
      by simp
  qed
  have qbv: "unat qb = 2 ^ (16 + k)"
  proof -
    have "unat qb = take_bit 32 (push_bit k (unat (0x10000 :: 32 word)))"
      unfolding qb_def by (simp only: unsigned_push_bit_eq) simp
    also have "\<dots> = take_bit 32 ((2 :: nat) ^ (16 + k))"
      by (simp add: push_bit_eq_mult power_add)
    also have "\<dots> = 2 ^ (16 + k)"
    proof (rule take_bit_nat_eq_self)
      show "(2 :: nat) ^ (16 + k) < 2 ^ 32"
        by (rule power_strict_increasing) (use k15 in simp_all)
    qed
    finally show ?thesis .
  qed
  have dv: "unat d = D * 2 ^ k"
    unfolding d_def by (rule k(2))
  have al: "divfix_align (absfix a) (absfix b) 0x10000 = Some (d, qb)"
    unfolding d_def qb_def by (rule k(1))
  have full: "R * 2 ^ (16 + k) div (D * 2 ^ k) = R * 2 ^ 16 div D"
  proof -
    have "R * 2 ^ (16 + k) = (R * 2 ^ 16) * 2 ^ k"
      by (simp add: power_add)
    then show ?thesis
      by (simp only: quot_scale [of "2 ^ k"] zero_less_power zero_less_numeral)
  qed
  have dpos: "0 < unat d"
    unfolding dv using D by simp
  show ?thesis
  proof (cases "2 ^ 31 \<le> unat d")
    case top: True
    show ?thesis
    proof (cases "d \<le> absfix a")
      case True
      then have "unat d \<le> R"
        by (simp add: word_le_nat_alt R_def)
      with k(3) dv have Rd: "R = D * 2 ^ k"
        by simp
      have "unat (absfix a) = unat d"
        using Rd dv by (simp add: R_def)
      then have "absfix a = d"
        by (rule unsigned_word_eqI)
      then have "absfix a - d = 0"
        by simp
      then have "divfix_loop (drop_bit 1 d) (absfix a - d) (drop_bit 1 qb) (0 OR qb) = qb"
        by simp
      then have "divfix a b = Some (if (a XOR b) AND 0x80000000 \<noteq> 0 then - qb else qb)"
        using al top True by (simp add: divfix_def Let_def top_bit_test)
      moreover have "unat qb = R * 2 ^ 16 div D"
        unfolding qbv full [symmetric] unfolding Rd using D by (simp add: power_add)
      ultimately show ?thesis
        by blast
    next
      case False
      then have lt: "R < unat d"
        by (simp add: word_le_nat_alt R_def)
      have ev: "even (unat d)"
      proof (cases "k = 0")
        case True
        with dv top D31 have "unat d = 2 ^ 31"
          by simp
        then show ?thesis by simp
      next
        case False
        then show ?thesis unfolding dv by simp
      qed
      have d2: "unat (drop_bit 1 d) = unat d div 2"
        by (rule unat_shr1)
      have "(2 :: nat) ^ (16 + k) = 2 * 2 ^ (15 + k)"
        by (simp add: power_add)
      then have q2: "unat (drop_bit 1 qb) = 2 ^ (15 + k)"
        unfolding unat_shr1 qbv by simp
      have "unat d < 2 ^ 32"
        using unsigned_less [of d] by simp
      then have d2le: "unat (drop_bit 1 d) \<le> 2 ^ 31"
        unfolding d2 by simp
      have twice: "2 * unat (drop_bit 1 d) = unat d"
        unfolding d2 using ev by simp
      define res where "res = divfix_loop (drop_bit 1 d) (absfix a) (drop_bit 1 qb) 0"
      have "unat res = unat (0 :: 32 word) + unat (absfix a) * 2 ^ (15 + k) div unat (drop_bit 1 d)"
        unfolding res_def
        by (rule divfix_loop_spec) (use q2 d2le twice lt in \<open>simp_all add: R_def\<close>)
      also have "\<dots> = R * 2 ^ (15 + k) div (unat d div 2)"
        unfolding d2 by (simp add: R_def)
      also have "\<dots> = (R * 2 ^ (15 + k) * 2) div (unat d div 2 * 2)"
        by (simp only: quot_scale [of 2] zero_less_numeral)
      also have "unat d div 2 * 2 = D * 2 ^ k"
        using ev by (simp add: dv [symmetric])
      also have "R * 2 ^ (15 + k) * 2 = R * 2 ^ (16 + k)"
        by (simp add: power_add)
      finally have "unat res = R * 2 ^ 16 div D"
        unfolding full .
      moreover have "divfix a b = Some (if (a XOR b) AND 0x80000000 \<noteq> 0 then - res else res)"
        using al top False by (simp add: divfix_def Let_def top_bit_test res_def)
      ultimately show ?thesis
        by blast
    qed
  next
    case False
    then have d31: "unat d \<le> 2 ^ 31"
      by simp
    have lt: "R < 2 * unat d"
      using k(3) dpos unfolding dv by linarith
    define res where "res = divfix_loop d (absfix a) qb 0"
    have "unat res = unat (0 :: 32 word) + unat (absfix a) * 2 ^ (16 + k) div unat d"
      unfolding res_def
      by (rule divfix_loop_spec) (use qbv d31 lt in \<open>simp_all add: R_def\<close>)
    then have "unat res = R * 2 ^ 16 div D"
      unfolding full [symmetric] dv by (simp add: R_def)
    moreover have "divfix a b = Some (if (a XOR b) AND 0x80000000 \<noteq> 0 then - res else res)"
      using al False by (simp add: divfix_def Let_def top_bit_test res_def)
    ultimately show ?thesis
      by blast
  qed
qed


lemma sint_small:
  fixes w :: "32 word"
  assumes "unat w < 2 ^ 31"
  shows "sint w = int (unat w)" and "sint (- w) = - int (unat w)"
proof -
  have "int (unat w) < int (2 ^ 31)"
    using assms by (simp only: of_nat_less_iff)
  then have u: "uint w < 2 ^ 31"
    by simp
  have "(- (2 ^ 31) :: int) \<le> 0"
    by simp
  also have "0 \<le> uint w"
    by simp
  finally have u0: "- (2 ^ 31) \<le> uint w" .
  have n1: "- (2 ^ 31) \<le> - uint w"
    using u by linarith
  have "- uint w \<le> 0"
    by simp
  also have "(0 :: int) < 2 ^ 31"
    by simp
  finally have n2: "- uint w < 2 ^ 31" .
  note n0 = n1 n2
  have "sint w = signed_take_bit (LENGTH(32) - Suc 0) (uint w)"
    by (rule sint_uint)
  also have "\<dots> = uint w"
    by (rule signed_take_bit_int_eq_self) (use u u0 in simp_all)
  finally have s: "sint w = uint w" .
  then show "sint w = int (unat w)"
    by simp
  have "sint (- w) = signed_take_bit (LENGTH(32) - Suc 0) (- sint w)"
    by (simp only: sint_word_ariths One_nat_def)
  also have "\<dots> = signed_take_bit (LENGTH(32) - Suc 0) (- uint w)"
    by (simp only: s)
  also have "\<dots> = - uint w"
    by (rule signed_take_bit_int_eq_self) (use n0 in simp_all)
  finally show "sint (- w) = - int (unat w)"
    by simp
qed

lemma divfix_signed:
  fixes a b :: "32 word"
  assumes "b \<noteq> 0" and "\<bar>sint a\<bar> * 2 ^ 16 div \<bar>sint b\<bar> < 2 ^ 31"
  shows "\<exists>q. divfix a b = Some q
      \<and> sint q = (if (sint a < 0) \<noteq> (sint b < 0)
                  then - (\<bar>sint a\<bar> * 2 ^ 16 div \<bar>sint b\<bar>)
                  else \<bar>sint a\<bar> * 2 ^ 16 div \<bar>sint b\<bar>)"
proof -
  define R where "R = unat (absfix a)"
  define D where "D = unat (absfix b)"
  have R: "int R = \<bar>sint a\<bar>" and D: "int D = \<bar>sint b\<bar>"
    by (simp_all add: R_def D_def unat_absfix)
  have "sint b \<noteq> 0"
  proof
    assume "sint b = 0"
    then have "word_of_int (sint b) = (0 :: 32 word)"
      by simp
    then show False
      using assms(1) by simp
  qed
  then have Dpos: "0 < D"
    using D by simp
  have Qi: "int (R * 2 ^ 16 div D) = \<bar>sint a\<bar> * 2 ^ 16 div \<bar>sint b\<bar>"
    unfolding zdiv_int R [symmetric] D [symmetric] by simp
  have "int (R * 2 ^ 16 div D) < 2 ^ 31"
    unfolding Qi by (rule assms(2))
  then have Qlt: "R * 2 ^ 16 div D < 2 ^ 31"
    by simp
  obtain res where res:
    "divfix a b = Some (if (a XOR b) AND 0x80000000 \<noteq> 0 then - res else res)"
    "unat res = R * 2 ^ 16 div D"
    using divfix_magnitude [of b a] Dpos Qlt unfolding R_def D_def by blast
  have lt: "unat res < 2 ^ 31"
    unfolding res(2) by (rule Qlt)
  have v: "int (unat res) = \<bar>sint a\<bar> * 2 ^ 16 div \<bar>sint b\<bar>"
    unfolding res(2) by (rule Qi)
  have s1: "sint res = \<bar>sint a\<bar> * 2 ^ 16 div \<bar>sint b\<bar>"
    unfolding v [symmetric] by (rule sint_small(1) [OF lt])
  have s2: "sint (- res) = - (\<bar>sint a\<bar> * 2 ^ 16 div \<bar>sint b\<bar>)"
    unfolding v [symmetric] by (rule sint_small(2) [OF lt])
  show ?thesis
  proof (cases "(sint a < 0) \<noteq> (sint b < 0)")
    case True
    then have "(a XOR b) AND 0x80000000 \<noteq> 0"
      by (rule sign_test [THEN iffD2])
    then have "divfix a b = Some (- res)"
      using res(1) by simp
    then show ?thesis
      using True s2 by simp
  next
    case False
    then have "\<not> (a XOR b) AND 0x80000000 \<noteq> 0"
      using sign_test [of a b] by blast
    then have "divfix a b = Some res"
      using res(1) by simp
    then show ?thesis
      using False s1 by simp
  qed
qed

section \<open>Dividing and multiplying back\<close>


lemma sint_of_int_small:
  assumes "- (2 ^ 31) \<le> x" and "x < 2 ^ 31"
  shows "sint (word_of_int x :: 32 word) = x"
proof -
  have "sint (word_of_int x :: 32 word) = signed_take_bit (LENGTH(32) - Suc 0) x"
    by (simp only: sint_sbintrunc' One_nat_def)
  also have "\<dots> = x"
    by (rule signed_take_bit_int_eq_self) (use assms in simp_all)
  finally show ?thesis .
qed

lemma ceil_bound: "0 < B \<Longrightarrow> B - 1 \<le> (B + 65534) div 65536 * 65536" for B :: int
proof -
  have "B + 65534 = (B + 65534) div 65536 * 65536 + (B + 65534) mod 65536"
    by simp
  moreover have "(B + 65534) mod 65536 < 65536"
    by simp
  ultimately show ?thesis
    by linarith
qed

lemma div_sandwich:
  fixes P lo hi :: int
  assumes "lo * 65536 \<le> P" and "P \<le> hi * 65536"
  shows "lo \<le> P div 65536" and "P div 65536 \<le> hi"
proof -
  have "lo * 65536 div 65536 \<le> P div 65536"
    using assms(1) by (intro zdiv_mono1) simp_all
  then show "lo \<le> P div 65536"
    by simp
  have "P div 65536 \<le> hi * 65536 div 65536"
    using assms(2) by (intro zdiv_mono1) simp_all
  then show "P div 65536 \<le> hi"
    by simp
qed

lemma divfix_mulfix_bound:
  fixes a b :: "32 word"
  assumes "b \<noteq> 0" and "\<bar>sint a\<bar> * 2 ^ 16 div \<bar>sint b\<bar> < 2 ^ 31"
  shows "\<exists>q. divfix a b = Some q
      \<and> \<bar>sint (mulfix q b) - sint a\<bar> \<le> (\<bar>sint b\<bar> + 65534) div 65536"
proof -
  define A where "A = \<bar>sint a\<bar>"
  define B where "B = \<bar>sint b\<bar>"
  define Q where "Q = A * 65536 div B"
  define c where "c = (B + 65534) div 65536"
  obtain q where q: "divfix a b = Some q"
    "sint q = (if (sint a < 0) \<noteq> (sint b < 0) then - Q else Q)"
    using divfix_signed [OF assms] unfolding Q_def A_def B_def by auto
  have "sint b \<noteq> 0"
  proof
    assume "sint b = 0"
    then have "word_of_int (sint b) = (0 :: 32 word)"
      by simp
    then show False
      using assms(1) by simp
  qed
  then have Bpos: "0 < B"
    unfolding B_def by simp
  have A0: "0 \<le> A"
    unfolding A_def by simp
  have "A * 65536 = Q * B + A * 65536 mod B"
    unfolding Q_def by simp
  moreover have "0 \<le> A * 65536 mod B" "A * 65536 mod B < B"
    using Bpos by simp_all
  ultimately have QB: "Q * B \<le> A * 65536" "A * 65536 - B + 1 \<le> Q * B"
    by linarith+
  have Q0: "0 \<le> Q"
    unfolding Q_def using A0 Bpos by (simp add: pos_imp_zdiv_nonneg_iff)
  then have QB0: "0 \<le> Q * B"
    using Bpos by simp
  have cb: "B - 1 \<le> c * 65536"
    unfolding c_def using Bpos by (rule ceil_bound)
  have ab: "- (2 ^ 31) \<le> sint a" "sint a < 2 ^ 31"
    using sint_ge [of a] sint_lt [of a] by simp_all
  define x where "x = sint q * sint b div 65536"
  have mul: "mulfix q b = word_of_int x"
    unfolding x_def by (simp add: mulfix_eq)
  show ?thesis
  proof (cases "sint a < 0")
    case False
    then have Aa: "A = sint a"
      unfolding A_def by simp
    have P: "sint q * sint b = Q * B"
    proof (cases "sint b < 0")
      case True
      show ?thesis
      proof (cases "sint a = 0")
        case True
        then have "Q = 0"
          unfolding Q_def A_def by simp
        then show ?thesis
          using q(2) by simp
      next
        case False
        then show ?thesis
          using q(2) True \<open>\<not> sint a < 0\<close> unfolding B_def by simp
      qed
    next
      case False
      then show ?thesis
        using q(2) \<open>\<not> sint a < 0\<close> unfolding B_def by simp
    qed
    have "(sint a - c) * 65536 \<le> Q * B"
      using QB(2) cb Aa by (simp add: algebra_simps)
    then have lo: "sint a - c \<le> x"
      unfolding x_def P using QB(1) Aa by (intro div_sandwich(1) [of _ _ "sint a"]) simp_all
    have hi: "x \<le> sint a"
      unfolding x_def P using QB(1) Aa QB0 by (intro div_sandwich(2) [of 0]) simp_all
    have x0: "0 \<le> x"
      unfolding x_def P using QB(1) Aa QB0 by (intro div_sandwich(1) [of _ _ "sint a"]) simp_all
    have "sint (mulfix q b) = x"
      unfolding mul by (rule sint_of_int_small) (use x0 hi ab in simp_all)
    then have "\<bar>sint (mulfix q b) - sint a\<bar> \<le> c"
      using lo hi by simp
    then show ?thesis
      using q(1) unfolding c_def B_def by simp
  next
    case True
    then have Aa: "A = - sint a"
      unfolding A_def by simp
    have P: "sint q * sint b = - (Q * B)"
    proof (cases "sint b < 0")
      case True
      then show ?thesis
        using q(2) \<open>sint a < 0\<close> unfolding B_def by simp
    next
      case False
      then show ?thesis
        using q(2) \<open>sint a < 0\<close> unfolding B_def by simp
    qed
    have "- (Q * B) \<le> (sint a + c) * 65536"
      using QB(2) cb Aa by (simp add: algebra_simps)
    then have hi: "x \<le> sint a + c"
      unfolding x_def P using QB(1) Aa by (intro div_sandwich(2) [of "sint a"]) simp_all
    have lo: "sint a \<le> x"
      unfolding x_def P using QB(1) Aa QB0 by (intro div_sandwich(1) [of _ _ 0]) simp_all
    have x0: "x \<le> 0"
      unfolding x_def P using QB(1) Aa QB0 by (intro div_sandwich(2) [of "sint a"]) simp_all
    have "sint (mulfix q b) = x"
      unfolding mul by (rule sint_of_int_small) (use x0 lo ab in simp_all)
    then have "\<bar>sint (mulfix q b) - sint a\<bar> \<le> c"
      using lo hi by simp
    then show ?thesis
      using q(1) unfolding c_def B_def by simp
  qed
qed

text \<open>
  Claim C2, as stated, fails: dividing the raw value 99 by 100.0 gives 0, and multiplying
  back gives 0, which is 99 units away from the dividend.
\<close>

theorem divfix_mulfix_inverse_counterexample:
  "divfix 99 6553600 = Some 0 \<and> \<not> \<bar>sint (mulfix 0 6553600) - sint (99 :: 32 word)\<bar> \<le> 1"
proof -
  have "divfix 99 6553600 = Some 0"
    by code_simp
  moreover have "mulfix 0 6553600 = 0"
    by code_simp
  ultimately show ?thesis
    by simp
qed

text \<open>
  Claim C2, amended. For a non-zero divisor whose quotient magnitude
  \<open>\<bar>a\<bar> * 2 ^ 16 div \<bar>b\<bar>\<close> is below \<open>2 ^ 31\<close>, \<^verbatim>\<open>divfix\<close> returns, and multiplying the
  quotient back by the divisor differs from the dividend by at most
  \<open>(\<bar>b\<bar> + 65534) div 65536\<close> raw units; that is at most one unit in the last fractional
  bit when the divisor's magnitude is at most 1.0.
\<close>

theorem divfix_mulfix_inverse:
  fixes a b :: "32 word"
  assumes "b \<noteq> 0" and "\<bar>sint a\<bar> * 2 ^ 16 div \<bar>sint b\<bar> < 2 ^ 31"
  shows "\<exists>q. divfix a b = Some q
      \<and> \<bar>sint (mulfix q b) - sint a\<bar> \<le> (\<bar>sint b\<bar> + 65534) div 65536
      \<and> (\<bar>sint b\<bar> \<le> 65536 \<longrightarrow> \<bar>sint (mulfix q b) - sint a\<bar> \<le> 1)"
proof -
  obtain q where q: "divfix a b = Some q"
    "\<bar>sint (mulfix q b) - sint a\<bar> \<le> (\<bar>sint b\<bar> + 65534) div 65536"
    using divfix_mulfix_bound [OF assms] by blast
  have "\<bar>sint (mulfix q b) - sint a\<bar> \<le> 1" if "\<bar>sint b\<bar> \<le> 65536"
  proof -
    have "(\<bar>sint b\<bar> + 65534) div 65536 \<le> (65536 + 65534) div 65536"
      using that by (intro zdiv_mono1) simp_all
    then show ?thesis
      using q(2) by simp
  qed
  with q show ?thesis
    by blast
qed

theorem divfix_mulfix_inverse_witness:
  "(0x8000 :: 32 word) \<noteq> 0
   \<and> \<bar>sint (0x30001 :: 32 word)\<bar> * 2 ^ 16 div \<bar>sint (0x8000 :: 32 word)\<bar> < 2 ^ 31
   \<and> \<bar>sint (0x8000 :: 32 word)\<bar> \<le> 65536
   \<and> (\<exists>q. divfix 0x30001 0x8000 = Some q \<and> \<bar>sint (mulfix q 0x8000) - sint (0x30001 :: 32 word)\<bar> \<le> 1)"
proof -
  have h1: "(0x8000 :: 32 word) \<noteq> 0"
    by simp
  have h2: "\<bar>sint (0x30001 :: 32 word)\<bar> * 2 ^ 16 div \<bar>sint (0x8000 :: 32 word)\<bar> < 2 ^ 31"
    by simp
  have h3: "\<bar>sint (0x8000 :: 32 word)\<bar> \<le> 65536"
    by simp
  from divfix_mulfix_inverse [OF h1 h2] h3 have
    "\<exists>q. divfix 0x30001 0x8000 = Some q \<and> \<bar>sint (mulfix q 0x8000) - sint (0x30001 :: 32 word)\<bar> \<le> 1"
    by blast
  with h1 h2 h3 show ?thesis
    by blast
qed

section \<open>The ingester keeps null triangles out of the list\<close>

lemma parse_loop_invariant:
  "parse_loop s k ts = Inr (k', ts') \<Longrightarrow> k \<le> length ts
   \<Longrightarrow> (\<forall>i<k. \<not> is_null_triangle3d (ts ! i))
   \<Longrightarrow> length ts' = length ts \<and> k' \<le> length ts'
       \<and> (\<forall>i<k'. \<not> is_null_triangle3d (ts' ! i))"
proof (induction s k ts rule: parse_loop.induct)
  case (1 s k ts)
  show ?case
  proof (cases "s \<noteq> [] \<and> \<not> MAX_TRIANGLES \<le> k")
    case False
    then have "parse_loop s k ts = Inr (k, ts)"
      by (subst parse_loop.simps) (simp only: if_False)
    with "1.prems" show ?thesis
      by simp
  next
    case True
    have inb: "k < length ts"
    proof (rule ccontr)
      assume "\<not> k < length ts"
      with True have "parse_loop s k ts = Inl (WriteOutOfBounds k)"
        by (subst parse_loop.simps) simp
      with "1.prems"(1) show False
        by simp
    qed
    obtain s1 newtri where pv: "parse_vertices 3 0 s (ts ! k) = Inr (s1, newtri)"
    proof (cases "parse_vertices 3 0 s (ts ! k)")
      case (Inl e)
      with True inb have "parse_loop s k ts = Inl e"
        by (subst parse_loop.simps) simp
      with "1.prems"(1) show ?thesis
        by simp
    next
      case (Inr r)
      with that show ?thesis
        by (cases r) simp
    qed
    define ts1 where "ts1 = ts[k := newtri]"
    define k1 where "k1 = (if \<not> is_null_triangle3d (ts1 ! k) then k + 1 else k)"
    have step: "parse_loop s k ts = parse_loop s1 k1 ts1"
      using True inb pv unfolding ts1_def k1_def
      by (subst parse_loop.simps) (simp add: Let_def)
    have len1: "length ts1 = length ts"
      unfolding ts1_def by simp
    have k1le: "k1 \<le> length ts1"
      unfolding k1_def len1 using inb by simp
    have inv1: "\<forall>i<k1. \<not> is_null_triangle3d (ts1 ! i)"
    proof (intro allI impI)
      fix i
      assume i: "i < k1"
      show "\<not> is_null_triangle3d (ts1 ! i)"
      proof (cases "i < k")
        case True
        then have "ts1 ! i = ts ! i"
          unfolding ts1_def by simp
        with True "1.prems"(3) show ?thesis
          by simp
      next
        case False
        with i have "i = k" and "\<not> is_null_triangle3d (ts1 ! k)"
          unfolding k1_def by (auto split: if_splits)
        then show ?thesis
          by simp
      qed
    qed
    have "length ts' = length ts1 \<and> k' \<le> length ts' \<and> (\<forall>i<k'. \<not> is_null_triangle3d (ts' ! i))"
    proof (rule "1.IH" [OF True inb pv refl])
      show "ts1 = ts[k := newtri]"
        by (rule ts1_def)
      show "k1 = (if \<not> is_null_triangle3d (ts1 ! k) then k + 1 else k)"
        by (rule k1_def)
      show "parse_loop s1 k1 ts1 = Inr (k', ts')"
        using "1.prems"(1) step by simp
      show "k1 \<le> length ts1"
        by (rule k1le)
      show "\<forall>i<k1. \<not> is_null_triangle3d (ts1 ! i)"
        by (rule inv1)
    qed
    then show ?thesis
      by (simp add: len1)
  qed
qed

lemma is_null_null_triangle3d: "is_null_triangle3d null_triangle3d"
  by (simp add: is_null_triangle3d_def null_triangle3d_def null_point3d_def)

section \<open>Parsing sample text\<close>

lemma frac_fit_small: "frac_fit 0 1 = (0, 1)"
  by (subst frac_fit.simps) simp

lemmas parser_eval = ascii_decimal_to_fixed_t_def skip_sign_def skip_dot_def compose_fixed_def
  decdigit_def newline_def Let_def

lemma digit_one: "ascii_decimal_to_fixed_t (CHR ''1'' # d # rest) = Inr (rest, 0x10000)"
  if "d = CHR '' '' \<or> d = newline"
  using that by (auto simp add: parser_eval frac_fit_small)

lemma digit_zero: "ascii_decimal_to_fixed_t (CHR ''0'' # d # rest) = Inr (rest, 0)"
  if "d = CHR '' '' \<or> d = newline"
  using that by (auto simp add: parser_eval frac_fit_small)

lemmas facet_eval = facet_vertices_def facet_head_def facet_tail_def numeral_3_eq_3
  parse_point_def digit_one digit_zero set_point_def unit_triangle_def Let_def newline_def

lemma first_facet_parse:
  "parse_vertices 3 0 (facet_head @ facet_vertices @ rest) t = Inr (rest, unit_triangle)"
  by (simp add: facet_eval)

lemma next_facet_parse:
  "parse_vertices 3 0 (facet_tail @ facet_head @ facet_vertices @ rest) t
     = Inr (rest, unit_triangle)"
  by (simp add: facet_eval)

lemma unit_triangle_not_null: "\<not> is_null_triangle3d unit_triangle"
  by (simp add: is_null_triangle3d_def unit_triangle_def)

lemma parse_loop_step:
  assumes "parse_vertices 3 0 s (ts ! k) = Inr (rest, unit_triangle)"
    and "s \<noteq> []" and "k < MAX_TRIANGLES" and "k < length ts"
  shows "parse_loop s k ts = parse_loop rest (Suc k) (ts[k := unit_triangle])"
  using assms
  by (subst parse_loop.simps) (simp add: Let_def unit_triangle_not_null del: parse_loop.simps)

lemma concat_replicate_snoc: "concat (replicate (Suc n) x) = concat (replicate n x) @ x"
  by (induction n) simp_all

lemma facets_swap:
  "concat (replicate (Suc n) facet_text)
     = facet_head @ facet_vertices
       @ concat (replicate n (facet_tail @ facet_head @ facet_vertices)) @ facet_tail"
proof (induction n)
  case 0
  show ?case
    by (simp add: facet_text_def)
next
  case (Suc n)
  have "concat (replicate (Suc (Suc n)) facet_text)
      = concat (replicate (Suc n) facet_text) @ facet_text"
    by (rule concat_replicate_snoc)
  also have "\<dots> = facet_head @ facet_vertices
       @ (concat (replicate n (facet_tail @ facet_head @ facet_vertices))
          @ (facet_tail @ facet_head @ facet_vertices)) @ facet_tail"
    unfolding Suc.IH by (simp add: facet_text_def)
  also have "concat (replicate n (facet_tail @ facet_head @ facet_vertices))
          @ (facet_tail @ facet_head @ facet_vertices)
     = concat (replicate (Suc n) (facet_tail @ facet_head @ facet_vertices))"
    by (rule concat_replicate_snoc [symmetric])
  finally show ?case .
qed

lemma parse_loop_facets:
  assumes "k + m \<le> MAX_TRIANGLES" and "k + m \<le> length ts"
  shows "\<exists>ts'. length ts' = length ts
      \<and> (\<forall>i. k \<le> i \<and> i < k + m \<longrightarrow> ts' ! i = unit_triangle)
      \<and> (\<forall>i<k. ts' ! i = ts ! i)
      \<and> parse_loop (concat (replicate m (facet_tail @ facet_head @ facet_vertices)) @ rest) k ts
          = parse_loop rest (k + m) ts'"
  using assms
proof (induction m arbitrary: k ts)
  case 0
  then show ?case
    by auto
next
  case (Suc m)
  define s where "s = facet_tail @ facet_head @ facet_vertices
    @ concat (replicate m (facet_tail @ facet_head @ facet_vertices)) @ rest"
  have ne: "s \<noteq> []"
    unfolding s_def facet_tail_def by simp
  have pv: "parse_vertices 3 0 s (ts ! k)
      = Inr (concat (replicate m (facet_tail @ facet_head @ facet_vertices)) @ rest, unit_triangle)"
    unfolding s_def by (rule next_facet_parse)
  have step: "parse_loop s k ts
      = parse_loop (concat (replicate m (facet_tail @ facet_head @ facet_vertices)) @ rest)
          (Suc k) (ts[k := unit_triangle])"
    by (rule parse_loop_step [OF pv ne]) (use Suc.prems in simp_all)
  obtain ts' where ts':
    "length ts' = length (ts[k := unit_triangle])"
    "\<forall>i. Suc k \<le> i \<and> i < Suc k + m \<longrightarrow> ts' ! i = unit_triangle"
    "\<forall>i<Suc k. ts' ! i = ts[k := unit_triangle] ! i"
    "parse_loop (concat (replicate m (facet_tail @ facet_head @ facet_vertices)) @ rest)
        (Suc k) (ts[k := unit_triangle]) = parse_loop rest (Suc k + m) ts'"
    using Suc.IH [of "Suc k" "ts[k := unit_triangle]"] Suc.prems by auto
  have "length ts' = length ts"
    using ts'(1) by simp
  moreover have "\<forall>i. k \<le> i \<and> i < k + Suc m \<longrightarrow> ts' ! i = unit_triangle"
  proof (intro allI impI)
    fix i
    assume i: "k \<le> i \<and> i < k + Suc m"
    show "ts' ! i = unit_triangle"
    proof (cases "i = k")
      case True
      then have "ts' ! i = ts[k := unit_triangle] ! k"
        using ts'(3) by simp
      then show ?thesis
        using Suc.prems by simp
    next
      case False
      with i show ?thesis
        using ts'(2) by simp
    qed
  qed
  moreover have "\<forall>i<k. ts' ! i = ts ! i"
    using ts'(3) by simp
  moreover have "parse_loop (concat (replicate (Suc m) (facet_tail @ facet_head @ facet_vertices)) @ rest) k ts
      = parse_loop rest (k + Suc m) ts'"
    using step ts'(4) unfolding s_def by simp
  ultimately show ?case
    by blast
qed

text \<open>
  Claim C4. The text \<^verbatim>\<open>23.5\<close> followed by a space or a newline parses to
  \<open>23 << 16 | 0x8000\<close>, and \<^verbatim>\<open>-12.25\<close> to the negation of \<open>12 << 16 | 0x4000\<close>; the cursor
  is left after the delimiter.
\<close>

theorem parser_exactness:
  "ascii_decimal_to_fixed_t (''23.5 '' @ rest) = Inr (rest, push_bit 16 23 OR 0x8000)
   \<and> ascii_decimal_to_fixed_t (''23.5'' @ newline # rest) = Inr (rest, push_bit 16 23 OR 0x8000)
   \<and> ascii_decimal_to_fixed_t (''-12.25 '' @ rest) = Inr (rest, - (push_bit 16 12 OR 0x4000))
   \<and> ascii_decimal_to_fixed_t (''-12.25'' @ newline # rest) = Inr (rest, - (push_bit 16 12 OR 0x4000))"
proof -
  have f1: "frac_fit 5 10 = (5, 10)"
    by (subst frac_fit.simps) simp
  have f2: "frac_fit 25 100 = (25, 100)"
    by (subst frac_fit.simps) simp
  have a: "ascii_decimal_to_fixed_t (''23.5 '' @ rest) = Inr (rest, push_bit 16 23 OR 0x8000)"
    by (simp add: parser_eval f1)
  have b: "ascii_decimal_to_fixed_t (''23.5'' @ newline # rest) = Inr (rest, push_bit 16 23 OR 0x8000)"
    by (simp add: parser_eval f1)
  have c: "ascii_decimal_to_fixed_t (''-12.25 '' @ rest) = Inr (rest, - (push_bit 16 12 OR 0x4000))"
    by (simp add: parser_eval f2)
  have d: "ascii_decimal_to_fixed_t (''-12.25'' @ newline # rest) = Inr (rest, - (push_bit 16 12 OR 0x4000))"
    by (simp add: parser_eval f2)
  from a b c d show ?thesis
    by (intro conjI)
qed

text \<open>
  Claim C5 on the code: for \<^verbatim>\<open>6.23e-16\<close> the value is 0, but the cursor stops right after
  the \<^verbatim>\<open>e\<close>, so the exponent \<^verbatim>\<open>-16\<close> is parsed as the next coordinate; for \<^verbatim>\<open>6e-16\<close>,
  with no decimal point, the first loop takes \<^verbatim>\<open>e\<close>, \<^verbatim>\<open>-\<close> and the digits as digits and the
  value is not 0.
\<close>

theorem exponent_numeral_cursor:
  "ascii_decimal_to_fixed_t ''6.23e-16 1.5 2.5 '' = Inr (''-16 1.5 2.5 '', 0)
   \<and> parse_point ''6.23e-16 1.5 2.5 ''
       = Inr (''2.5 '', \<lparr>x3d = 0, y3d = - int_to_fix 16, z3d = 0x18000\<rparr>)
   \<and> ascii_decimal_to_fixed_t ''6e-16 '' = Inr ('''', 3091988480)"
  by code_simp

text \<open>
  Claim C1 on the code: with \<^verbatim>\<open>MAX_TRIANGLES + 5\<close> facets and the array of \<^verbatim>\<open>MAX_TRIANGLES\<close>
  slots, the loop fills every slot and leaves \<^verbatim>\<open>tri_index = MAX_TRIANGLES\<close>; the sentinel is
  then written to slot \<^verbatim>\<open>MAX_TRIANGLES\<close>, one past the end of the array.
\<close>

theorem parse_stl_capacity_overrun:
  "parse_loop (concat (replicate (MAX_TRIANGLES + 5) facet_text)) 0
       (replicate MAX_TRIANGLES null_triangle3d)
     = Inr (MAX_TRIANGLES, replicate MAX_TRIANGLES unit_triangle)
   \<and> parse_stl (concat (replicate (MAX_TRIANGLES + 5) facet_text))
       (replicate MAX_TRIANGLES null_triangle3d) = Inl (WriteOutOfBounds MAX_TRIANGLES)"
proof -
  define ts0 where "ts0 = replicate MAX_TRIANGLES null_triangle3d"
  define body where "body = facet_tail @ facet_head @ facet_vertices"
  define rest where "rest = concat (replicate 5 body) @ facet_tail"
  have len0: "length ts0 = MAX_TRIANGLES"
    unfolding ts0_def by simp
  have M: "MAX_TRIANGLES = Suc (MAX_TRIANGLES - 1)"
    by (simp add: MAX_TRIANGLES_def)
  have "MAX_TRIANGLES + 5 = Suc ((MAX_TRIANGLES - 1) + 5)"
    by (simp add: MAX_TRIANGLES_def)
  then have "concat (replicate (MAX_TRIANGLES + 5) facet_text)
      = facet_head @ facet_vertices @ concat (replicate ((MAX_TRIANGLES - 1) + 5) body) @ facet_tail"
    unfolding body_def by (simp only: facets_swap)
  also have "concat (replicate ((MAX_TRIANGLES - 1) + 5) body) @ facet_tail
      = concat (replicate (MAX_TRIANGLES - 1) body) @ rest"
    unfolding rest_def by (simp add: replicate_add)
  finally have input_eq: "concat (replicate (MAX_TRIANGLES + 5) facet_text)
      = facet_head @ facet_vertices @ concat (replicate (MAX_TRIANGLES - 1) body) @ rest" .
  have first: "parse_loop (facet_head @ facet_vertices @ concat (replicate (MAX_TRIANGLES - 1) body) @ rest) 0 ts0
      = parse_loop (concat (replicate (MAX_TRIANGLES - 1) body) @ rest) (Suc 0) (ts0[0 := unit_triangle])"
  proof (rule parse_loop_step)
    show "parse_vertices 3 0
        (facet_head @ facet_vertices @ concat (replicate (MAX_TRIANGLES - 1) body) @ rest) (ts0 ! 0)
        = Inr (concat (replicate (MAX_TRIANGLES - 1) body) @ rest, unit_triangle)"
      by (rule first_facet_parse)
    show "facet_head @ facet_vertices @ concat (replicate (MAX_TRIANGLES - 1) body) @ rest \<noteq> []"
      by (simp add: facet_head_def)
    show "0 < MAX_TRIANGLES"
      by (simp add: MAX_TRIANGLES_def)
    show "0 < length ts0"
      unfolding len0 by (simp add: MAX_TRIANGLES_def)
  qed
  obtain ts' where ts': "length ts' = length (ts0[0 := unit_triangle])"
    "\<forall>i. Suc 0 \<le> i \<and> i < Suc 0 + (MAX_TRIANGLES - 1) \<longrightarrow> ts' ! i = unit_triangle"
    "\<forall>i<Suc 0. ts' ! i = ts0[0 := unit_triangle] ! i"
    "parse_loop (concat (replicate (MAX_TRIANGLES - 1) body) @ rest) (Suc 0) (ts0[0 := unit_triangle])
      = parse_loop rest (Suc 0 + (MAX_TRIANGLES - 1)) ts'"
    using parse_loop_facets [of "Suc 0" "MAX_TRIANGLES - 1" "ts0[0 := unit_triangle]" rest] len0 M
    unfolding body_def by auto
  have len': "length ts' = MAX_TRIANGLES"
    using ts'(1) len0 by simp
  have all: "ts' = replicate MAX_TRIANGLES unit_triangle"
  proof (rule nth_equalityI)
    show "length ts' = length (replicate MAX_TRIANGLES unit_triangle)"
      using len' by simp
  next
    fix i
    assume i: "i < length ts'"
    show "ts' ! i = replicate MAX_TRIANGLES unit_triangle ! i"
    proof (cases "i = 0")
      case True
      then have "ts' ! i = ts0[0 := unit_triangle] ! 0"
        using ts'(3) by simp
      also have "\<dots> = unit_triangle"
        using len0 M by simp
      finally show ?thesis
        using i len' by simp
    next
      case False
      then have "Suc 0 \<le> i \<and> i < Suc 0 + (MAX_TRIANGLES - 1)"
        using i len' M by simp
      then have "ts' ! i = unit_triangle"
        using ts'(2) by blast
      then show ?thesis
        using i len' by simp
    qed
  qed
  have last: "parse_loop rest MAX_TRIANGLES ts' = Inr (MAX_TRIANGLES, ts')"
    by (subst parse_loop.simps) simp
  have "Suc 0 + (MAX_TRIANGLES - 1) = MAX_TRIANGLES"
    using M by simp
  then have loop: "parse_loop (concat (replicate (MAX_TRIANGLES + 5) facet_text)) 0 ts0
      = Inr (MAX_TRIANGLES, ts')"
    unfolding input_eq first ts'(4) using last by simp
  then have "parse_stl (concat (replicate (MAX_TRIANGLES + 5) facet_text)) ts0
      = Inl (WriteOutOfBounds MAX_TRIANGLES)"
    unfolding parse_stl_def using len' by simp
  with loop show ?thesis
    unfolding all ts0_def by simp
qed

section \<open>All-zero triples are discarded\<close>

lemma is_null_eq: "is_null_triangle3d t \<longleftrightarrow> t = null_triangle3d"
proof
  assume n: "is_null_triangle3d t"
  have p: "p = null_point3d" if "x3d p = 0" "y3d p = 0" "z3d p = 0" for p :: point3d
    using that by (simp add: null_point3d_def)
  have "p3_0 t = null_point3d" "p3_1 t = null_point3d" "p3_2 t = null_point3d"
    using n by (auto simp add: is_null_triangle3d_def Let_def intro!: p split: if_splits)
  then show "t = null_triangle3d"
    by (simp add: null_triangle3d_def)
next
  assume "t = null_triangle3d"
  then show "is_null_triangle3d t"
    by (simp add: is_null_null_triangle3d)
qed

text \<open>One iteration of the loop on a slot that gets filled.\<close>

lemma parse_loop_filled:
  assumes "parse_vertices 3 0 s (ts ! k) = Inr (rest, t)"
    and "s \<noteq> []" and "k < MAX_TRIANGLES" and "k < length ts"
  shows "parse_loop s k ts
      = parse_loop rest (if is_null_triangle3d t then k else Suc k) (ts[k := t])"
  using assms
  by (subst parse_loop.simps) (simp add: Let_def del: parse_loop.simps)

lemma chunk_not_empty:
  assumes "\<forall>rest slot. parse_vertices 3 0 (f @ rest) slot = Inr (rest, t)"
  shows "f \<noteq> []"
proof
  assume "f = []"
  then have "parse_vertices 3 0 [] slot = Inr ([], t)" for slot
    using assms [rule_format, of "[]" slot] by simp
  then have "slot = t" for slot
    by (simp add: numeral_3_eq_3)
  from this [of null_triangle3d] this [of unit_triangle] show False
    using unit_triangle_not_null is_null_null_triangle3d by metis
qed

lemma parse_loop_chunks:
  assumes "\<forall>c\<in>set chunks. \<forall>rest slot. parse_vertices 3 0 (fst c @ rest) slot = Inr (rest, snd c)"
    and "kept = filter (\<lambda>t. \<not> is_null_triangle3d t) (map snd chunks)"
    and "k + length kept < length ts"
    and "k + length kept < MAX_TRIANGLES"
  shows "\<exists>X. (X = ts ! (k + length kept) \<or> is_null_triangle3d X)
      \<and> parse_loop (concat (map fst chunks) @ trailer) k ts
          = parse_loop trailer (k + length kept)
              (take k ts @ kept @ X # drop (Suc (k + length kept)) ts)"
  using assms
proof (induction chunks arbitrary: k ts kept)
  case Nil
  have "take k ts @ ts ! k # drop (Suc k) ts = ts"
    using Nil.prems(2,3) by (simp add: id_take_nth_drop [symmetric])
  then show ?case
    using Nil.prems(2) by auto
next
  case (Cons c cs)
  obtain f t where c: "c = (f, t)"
    by (cases c)
  define rest where "rest = concat (map fst cs) @ trailer"
  define later where "later = filter (\<lambda>t. \<not> is_null_triangle3d t) (map snd cs)"
  define n where "n = length later"
  have ch: "\<forall>rest slot. parse_vertices 3 0 (f @ rest) slot = Inr (rest, t)"
    using Cons.prems(1) c by simp
  have chs: "\<forall>c\<in>set cs. \<forall>rest slot. parse_vertices 3 0 (fst c @ rest) slot = Inr (rest, snd c)"
    using Cons.prems(1) by simp
  have ne: "f @ rest \<noteq> []"
    using chunk_not_empty [OF ch] by simp
  have kb: "k < MAX_TRIANGLES" "k < length ts"
    using Cons.prems(3,4) by simp_all
  have step: "parse_loop (f @ rest) k ts
      = parse_loop rest (if is_null_triangle3d t then k else Suc k) (ts[k := t])"
    by (rule parse_loop_filled [OF ch [rule_format] ne kb])
  show ?case
  proof (cases "is_null_triangle3d t")
    case True
    then have rt: "kept = later"
      using Cons.prems(2) by (simp add: later_def c)
    obtain X where X: "X = ts[k := t] ! (k + n) \<or> is_null_triangle3d X"
      "parse_loop rest k (ts[k := t])
        = parse_loop trailer (k + n)
            (take k (ts[k := t]) @ later @ X # drop (Suc (k + n)) (ts[k := t]))"
      using Cons.IH [OF chs later_def, of k "ts[k := t]"] Cons.prems(3,4)
      unfolding rt n_def rest_def by auto
    have X': "X = ts ! (k + n) \<or> is_null_triangle3d X"
    proof (cases "n = 0")
      case True
      with X(1) kb \<open>is_null_triangle3d t\<close> show ?thesis
        by auto
    next
      case False
      with X(1) show ?thesis
        by simp
    qed
    have "parse_loop (concat (map fst (c # cs)) @ trailer) k ts
        = parse_loop trailer (k + n) (take k ts @ later @ X # drop (Suc (k + n)) ts)"
      using step X(2) True by (simp add: c rest_def)
    with X' show ?thesis
      unfolding rt n_def by blast
  next
    case False
    then have rt: "kept = t # later"
      using Cons.prems(2) by (simp add: later_def c)
    have b: "Suc k + n < length (ts[k := t])" "Suc k + n < MAX_TRIANGLES"
      using Cons.prems(3,4) unfolding rt n_def by simp_all
    obtain X where X: "X = ts[k := t] ! (Suc k + n) \<or> is_null_triangle3d X"
      "parse_loop rest (Suc k) (ts[k := t])
        = parse_loop trailer (Suc k + n)
            (take (Suc k) (ts[k := t]) @ later @ X
               # drop (Suc (Suc k + n)) (ts[k := t]))"
      using Cons.IH [OF chs later_def, of "Suc k" "ts[k := t]"] b
      unfolding n_def rest_def by auto
    have X': "X = ts ! (k + Suc n) \<or> is_null_triangle3d X"
      using X(1) by simp
    have tk: "take (Suc k) (ts[k := t]) = take k ts @ [t]"
      using kb by (simp add: take_Suc_conv_app_nth)
    have "parse_loop (concat (map fst (c # cs)) @ trailer) k ts
        = parse_loop trailer (k + Suc n)
            (take k ts @ (t # later) @ X # drop (Suc (k + Suc n)) ts)"
      using step X(2) False unfolding tk by (simp add: c rest_def)
    with X' show ?thesis
      unfolding rt n_def by auto
  qed
qed

lemma zero_facet_parse:
  "parse_vertices 3 0 (facet_head @ zero_vertices @ rest) t = Inr (rest, null_triangle3d)"
  by (simp add: facet_eval zero_vertices_def parser_eval frac_fit_small null_triangle3d_def null_point3d_def)

lemma trailer_iteration:
  assumes "find_vertex trailer = []" and "is_null_triangle3d (ts ! k)" and "k < length ts"
  shows "parse_loop trailer k ts = Inr (k, ts)"
proof (cases "trailer \<noteq> [] \<and> \<not> MAX_TRIANGLES \<le> k")
  case False
  then show ?thesis
    by (subst parse_loop.simps) (simp only: if_False)
next
  case True
  have pv: "parse_vertices 3 0 trailer (ts ! k) = Inr ([], ts ! k)"
    using assms(1) by (simp add: numeral_3_eq_3)
  have "parse_loop trailer k ts = parse_loop [] k (ts[k := ts ! k])"
    using parse_loop_filled [OF pv _ _ assms(3)] True assms(2) by simp
  also have "\<dots> = Inr (k, ts)"
    by (subst parse_loop.simps) simp
  finally show ?thesis .
qed

lemma parse_stl_cursor:
  assumes "parse_loop s 0 ts = Inr (n, ts1)" and "n < length ts1"
  shows "parse_stl s ts = Inr (ts1[n := null_triangle3d])
     \<and> (\<forall>i<n. \<not> is_null_triangle3d (ts1 ! i))
     \<and> takeWhile (\<lambda>t. \<not> is_null_triangle3d t) (ts1[n := null_triangle3d]) = take n ts1"
proof -
  have 1: "parse_stl s ts = Inr (ts1[n := null_triangle3d])"
    using assms by (simp add: parse_stl_def set_null_triangle3d_def)
  have 2: "\<forall>i<n. \<not> is_null_triangle3d (ts1 ! i)"
    using parse_loop_invariant [OF assms(1)] by simp
  have "takeWhile (\<lambda>t. \<not> is_null_triangle3d t) (ts1[n := null_triangle3d])
      = take n (ts1[n := null_triangle3d])"
    by (rule takeWhile_eq_take_P_nth) (use 2 assms(2) in \<open>simp_all add: is_null_null_triangle3d\<close>)
  then have 3: "takeWhile (\<lambda>t. \<not> is_null_triangle3d t) (ts1[n := null_triangle3d]) = take n ts1"
    by simp
  from 1 2 3 show ?thesis
    by (intro conjI)
qed

text \<open>
  Claim C8. The text is a sequence of facets followed by a trailer without a vertex marker; a
  facet is a piece of text from which the three-vertex loop reads a triple and stops at its
  end, whatever follows it and whatever the slot held. \<open>kept\<close> is the list of the triples
  read, in their order, without the all-zero ones. When \<open>kept\<close> fits below the capacity and
  the slot after it is still zero, the loop ends with the write cursor at \<open>length kept\<close>, the
  slots before the cursor holding \<open>kept\<close> and the other slots as they were: an all-zero triple
  does not move the cursor and is overwritten by the next triple. \<^verbatim>\<open>parse_stl\<close> then writes the
  sentinel at the cursor, and a walk up to the first null triangle visits exactly \<open>kept\<close>.
  For any text at all, when the loop ends with the cursor \<open>n\<close> inside the array, the sentinel
  is written at \<open>n\<close>, no slot before \<open>n\<close> is null and the walk visits exactly the slots
  before \<open>n\<close>.
\<close>

theorem parse_stl_discards_null_triangles:
  assumes "\<forall>c\<in>set chunks. \<forall>rest slot.
             parse_vertices 3 0 (fst c @ rest) slot = Inr (rest, snd c)"
    and "find_vertex trailer = []"
    and "kept = filter (\<lambda>t. \<not> is_null_triangle3d t) (map snd chunks)"
    and "length kept < MAX_TRIANGLES" and "length kept < length ts"
    and "is_null_triangle3d (ts ! length kept)"
  shows "parse_loop (concat (map fst chunks) @ trailer) 0 ts
           = Inr (length kept, kept @ drop (length kept) ts)
     \<and> parse_stl (concat (map fst chunks) @ trailer) ts
           = Inr (kept @ null_triangle3d # drop (Suc (length kept)) ts)
     \<and> takeWhile (\<lambda>t. \<not> is_null_triangle3d t)
           (kept @ null_triangle3d # drop (Suc (length kept)) ts) = kept
     \<and> (\<forall>s0 ts0 n ts1. parse_loop s0 0 ts0 = Inr (n, ts1) \<and> n < length ts1
          \<longrightarrow> parse_stl s0 ts0 = Inr (ts1[n := null_triangle3d])
            \<and> (\<forall>i<n. \<not> is_null_triangle3d (ts1 ! i))
            \<and> takeWhile (\<lambda>t. \<not> is_null_triangle3d t) (ts1[n := null_triangle3d]) = take n ts1)"
proof -
  define n where "n = length kept"
  obtain X where X: "X = ts ! n \<or> is_null_triangle3d X"
    and run: "parse_loop (concat (map fst chunks) @ trailer) 0 ts
      = parse_loop trailer n (kept @ X # drop (Suc n) ts)"
    using parse_loop_chunks [OF assms(1,3), of 0 ts trailer] assms(4,5)
    unfolding n_def by auto
  have "is_null_triangle3d X"
    using X assms(6) unfolding n_def by auto
  then have Xn: "X = null_triangle3d"
    by (simp add: is_null_eq)
  have tn: "ts ! n = null_triangle3d"
    using assms(6) unfolding n_def by (simp add: is_null_eq)
  have same: "kept @ null_triangle3d # drop (Suc n) ts = kept @ drop n ts"
    using assms(5) tn unfolding n_def by (simp add: Cons_nth_drop_Suc [symmetric])
  have at: "(kept @ null_triangle3d # drop (Suc n) ts) ! n = null_triangle3d"
    unfolding n_def by simp
  have "parse_loop trailer n (kept @ null_triangle3d # drop (Suc n) ts)
      = Inr (n, kept @ null_triangle3d # drop (Suc n) ts)"
    by (rule trailer_iteration [OF assms(2)]) (simp_all add: at is_null_null_triangle3d, simp add: n_def)
  with run Xn have loop: "parse_loop (concat (map fst chunks) @ trailer) 0 ts
      = Inr (n, kept @ null_triangle3d # drop (Suc n) ts)"
    by simp
  have len: "n < length (kept @ null_triangle3d # drop (Suc n) ts)"
    unfolding n_def by simp
  have upd: "(kept @ null_triangle3d # drop (Suc n) ts)[n := null_triangle3d]
      = kept @ null_triangle3d # drop (Suc n) ts"
    unfolding n_def by (simp add: list_update_append)
  have tk: "take n (kept @ null_triangle3d # drop (Suc n) ts) = kept"
    unfolding n_def by simp
  note c = parse_stl_cursor [OF loop len, unfolded upd tk]
  have a: "parse_loop (concat (map fst chunks) @ trailer) 0 ts = Inr (length kept, kept @ drop (length kept) ts)"
    using loop unfolding same unfolding n_def .
  have b: "parse_stl (concat (map fst chunks) @ trailer) ts
           = Inr (kept @ null_triangle3d # drop (Suc (length kept)) ts)"
    using c unfolding n_def by simp
  have d: "takeWhile (\<lambda>t. \<not> is_null_triangle3d t)
           (kept @ null_triangle3d # drop (Suc (length kept)) ts) = kept"
    using c unfolding n_def by simp
  have e: "\<forall>s0 ts0 n ts1. parse_loop s0 0 ts0 = Inr (n, ts1) \<and> n < length ts1
          \<longrightarrow> parse_stl s0 ts0 = Inr (ts1[n := null_triangle3d])
            \<and> (\<forall>i<n. \<not> is_null_triangle3d (ts1 ! i))
            \<and> takeWhile (\<lambda>t. \<not> is_null_triangle3d t) (ts1[n := null_triangle3d]) = take n ts1"
    using parse_stl_cursor by blast
  from a b d e show ?thesis
    by (intro conjI)
qed

theorem parse_stl_discards_null_triangles_witness:
  "(\<forall>rest slot. parse_vertices 3 0 ((facet_head @ zero_vertices) @ rest) slot
       = Inr (rest, null_triangle3d))
   \<and> (\<forall>rest slot. parse_vertices 3 0 ((facet_tail @ facet_head @ facet_vertices) @ rest) slot
       = Inr (rest, unit_triangle))
   \<and> find_vertex facet_tail = []
   \<and> is_null_triangle3d null_triangle3d \<and> \<not> is_null_triangle3d unit_triangle
   \<and> (facet_head @ zero_vertices) @ (facet_tail @ facet_head @ facet_vertices) @ facet_tail
       = zero_facet_text @ facet_text
   \<and> parse_loop (zero_facet_text @ facet_text) 0 (replicate 3 null_triangle3d)
       = Inr (1, [unit_triangle, null_triangle3d, null_triangle3d])
   \<and> parse_stl (zero_facet_text @ facet_text) (replicate 3 null_triangle3d)
       = Inr [unit_triangle, null_triangle3d, null_triangle3d]
   \<and> takeWhile (\<lambda>t. \<not> is_null_triangle3d t) [unit_triangle, null_triangle3d, null_triangle3d]
       = [unit_triangle]"
proof -
  define chunks where "chunks = [(facet_head @ zero_vertices, null_triangle3d),
    (facet_tail @ facet_head @ facet_vertices, unit_triangle)]"
  have h1: "\<forall>rest slot. parse_vertices 3 0 ((facet_head @ zero_vertices) @ rest) slot
       = Inr (rest, null_triangle3d)"
    using zero_facet_parse by simp
  have h2: "\<forall>rest slot. parse_vertices 3 0 ((facet_tail @ facet_head @ facet_vertices) @ rest) slot
       = Inr (rest, unit_triangle)"
    using next_facet_parse by simp
  have h3: "find_vertex facet_tail = []"
    by code_simp
  have h4: "is_null_triangle3d null_triangle3d" "\<not> is_null_triangle3d unit_triangle"
    by (rule is_null_null_triangle3d, rule unit_triangle_not_null)
  have input_eq: "(facet_head @ zero_vertices) @ (facet_tail @ facet_head @ facet_vertices) @ facet_tail
       = zero_facet_text @ facet_text"
    by (simp add: zero_facet_text_def facet_text_def)
  have all: "\<forall>c\<in>set chunks. \<forall>rest slot.
             parse_vertices 3 0 (fst c @ rest) slot = Inr (rest, snd c)"
    unfolding chunks_def using h1 h2 by simp
  have kept: "[unit_triangle] = filter (\<lambda>t. \<not> is_null_triangle3d t) (map snd chunks)"
    unfolding chunks_def using h4 by simp
  have text_eq: "concat (map fst chunks) @ facet_tail = zero_facet_text @ facet_text"
    unfolding chunks_def using input_eq by simp
  have r3: "replicate 3 null_triangle3d = [null_triangle3d, null_triangle3d, null_triangle3d]"
    by (simp add: numeral_3_eq_3)
  from parse_stl_discards_null_triangles [OF all h3 kept, of "replicate 3 null_triangle3d"]
  have "parse_loop (zero_facet_text @ facet_text) 0 (replicate 3 null_triangle3d)
       = Inr (1, [unit_triangle, null_triangle3d, null_triangle3d])
   \<and> parse_stl (zero_facet_text @ facet_text) (replicate 3 null_triangle3d)
       = Inr [unit_triangle, null_triangle3d, null_triangle3d]
   \<and> takeWhile (\<lambda>t. \<not> is_null_triangle3d t) [unit_triangle, null_triangle3d, null_triangle3d]
       = [unit_triangle]"
    unfolding text_eq r3 using h4 by (simp add: MAX_TRIANGLES_def)
  with h1 h2 h3 h4 input_eq show ?thesis
    by blast
qed

section \<open>The bounding box is tight\<close>

lemma tight_single: "tight v v {v}"
  by (simp add: tight_def within_def)

lemma tight_step:
  assumes "tight lo hi V"
  shows "tight (if v <s lo then v else lo) (if hi <s v then v else hi) (insert v V)"
proof -
  have V: "\<forall>u\<in>V. sint lo \<le> sint u \<and> sint u \<le> sint hi" and lo: "lo \<in> V" and hi: "hi \<in> V"
    using assms by (simp_all add: tight_def within_def word_sle_eq)
  have "sint lo \<le> sint hi"
    using V lo by blast
  then show ?thesis
    using V lo hi
    by (auto simp add: tight_def within_def word_sle_eq word_sless_alt)
qed

lemma box_tight_start: "box_tight \<lparr>max3 = p, min3 = p\<rparr> {p}"
  by (simp add: box_tight_def tight_single)

lemma box_tight_extend:
  assumes "box_tight box S"
  shows "box_tight (extend_box3d box p) (insert p S)"
  using assms tight_step [of "x3d (min3 box)" "x3d (max3 box)" "x3d ` S" "x3d p"]
    tight_step [of "y3d (min3 box)" "y3d (max3 box)" "y3d ` S" "y3d p"]
    tight_step [of "z3d (min3 box)" "z3d (max3 box)" "z3d ` S" "z3d p"]
  by (simp add: box_tight_def extend_box3d_def)

lemma box_tight_foldl:
  "box_tight box S \<Longrightarrow> box_tight (foldl extend_box3d box ps) (set ps \<union> S)"
proof (induction ps arbitrary: box S)
  case Nil
  then show ?case by simp
next
  case (Cons p ps)
  have "box_tight (foldl extend_box3d (extend_box3d box p) ps) (set ps \<union> insert p S)"
    by (rule Cons.IH) (rule box_tight_extend [OF Cons.prems])
  then show ?case
    by simp
qed

lemma bounding_box_loop_run:
  assumes "\<forall>t\<in>set real. \<not> is_null_triangle3d t" and "is_null_triangle3d sentinel"
  shows "bounding_box_loop (real @ sentinel # rest) box
      = Inr (foldl extend_box3d box (vertices real))"
  using assms(1)
proof (induction real arbitrary: box)
  case Nil
  then show ?case
    using assms(2) by (simp add: vertices_def)
next
  case (Cons t ts)
  then show ?case
    by (simp add: vertices_def)
qed

lemma bounding_box_loop_overrun:
  "\<forall>t\<in>set ts. \<not> is_null_triangle3d t \<Longrightarrow> bounding_box_loop ts box = Inl ReadOutOfBounds"
  by (induction ts arbitrary: box) simp_all

text \<open>
  Claim C6. For an array that holds at least one real triangle and then the sentinel,
  \<^verbatim>\<open>find_bounding_box\<close> returns a box that encloses every vertex of every triangle before
  the sentinel on all three axes, and each of its six bounds is the coordinate of one of
  those vertices.
\<close>

theorem find_bounding_box_tight:
  assumes "real \<noteq> []" and "\<forall>t\<in>set real. \<not> is_null_triangle3d t"
    and "is_null_triangle3d sentinel"
  shows "\<exists>box. find_bounding_box (real @ sentinel # rest) = Inr box
      \<and> (\<forall>p\<in>set (vertices real). encloses box p)
      \<and> x3d (min3 box) \<in> x3d ` set (vertices real)
      \<and> y3d (min3 box) \<in> y3d ` set (vertices real)
      \<and> z3d (min3 box) \<in> z3d ` set (vertices real)
      \<and> x3d (max3 box) \<in> x3d ` set (vertices real)
      \<and> y3d (max3 box) \<in> y3d ` set (vertices real)
      \<and> z3d (max3 box) \<in> z3d ` set (vertices real)"
proof -
  obtain t ts where real: "real = t # ts"
    using assms(1) by (cases real) simp_all
  define start where "start = \<lparr>max3 = p3_0 t, min3 = p3_0 t\<rparr>"
  define box where "box = foldl extend_box3d start (vertices real)"
  have run: "find_bounding_box (real @ sentinel # rest) = Inr box"
    unfolding find_bounding_box_def box_def start_def
    using bounding_box_loop_run [OF assms(2,3)] by (simp add: real)
  have "p3_0 t \<in> set (vertices real)"
    by (simp add: real vertices_def)
  then have S: "set (vertices real) \<union> {p3_0 t} = set (vertices real)"
    by auto
  have "box_tight box (set (vertices real) \<union> {p3_0 t})"
    unfolding box_def start_def by (rule box_tight_foldl) (rule box_tight_start)
  then have bt: "box_tight box (set (vertices real))"
    by (simp only: S)
  then have "\<forall>p\<in>set (vertices real). encloses box p"
    by (simp add: box_tight_def tight_def encloses_def)
  with bt run show ?thesis
    by (simp add: box_tight_def tight_def)
qed

theorem find_bounding_box_tight_witness:
  "[unit_triangle] \<noteq> []
   \<and> \<not> is_null_triangle3d unit_triangle
   \<and> is_null_triangle3d null_triangle3d
   \<and> find_bounding_box ([unit_triangle] @ null_triangle3d # [])
       = Inr \<lparr>max3 = \<lparr>x3d = 0x10000, y3d = 0x10000, z3d = 0x10000\<rparr>,
              min3 = \<lparr>x3d = 0, y3d = 0, z3d = 0\<rparr>\<rparr>
   \<and> (\<exists>box. find_bounding_box ([unit_triangle] @ null_triangle3d # []) = Inr box
      \<and> (\<forall>p\<in>set (vertices [unit_triangle]). encloses box p)
      \<and> x3d (min3 box) \<in> x3d ` set (vertices [unit_triangle])
      \<and> y3d (min3 box) \<in> y3d ` set (vertices [unit_triangle])
      \<and> z3d (min3 box) \<in> z3d ` set (vertices [unit_triangle])
      \<and> x3d (max3 box) \<in> x3d ` set (vertices [unit_triangle])
      \<and> y3d (max3 box) \<in> y3d ` set (vertices [unit_triangle])
      \<and> z3d (max3 box) \<in> z3d ` set (vertices [unit_triangle]))"
proof -
  have h1: "[unit_triangle] \<noteq> []"
    by simp
  have h2: "\<forall>t\<in>set [unit_triangle]. \<not> is_null_triangle3d t"
    by (simp add: unit_triangle_not_null)
  have h3: "is_null_triangle3d null_triangle3d"
    by (rule is_null_null_triangle3d)
  have run: "find_bounding_box ([unit_triangle] @ null_triangle3d # [])
       = Inr \<lparr>max3 = \<lparr>x3d = 0x10000, y3d = 0x10000, z3d = 0x10000\<rparr>,
              min3 = \<lparr>x3d = 0, y3d = 0, z3d = 0\<rparr>\<rparr>"
    by code_simp
  from find_bounding_box_tight [OF h1 h2 h3, of "[]"] h1 h2 h3 run show ?thesis
    by simp
qed

section \<open>The draw box and the scaler\<close>












section \<open>Winding and the wedge\<close>

lemma sint_subfix:
  assumes "\<bar>sint a - sint b\<bar> < 2 ^ 31"
  shows "sint (subfix a b) = sint a - sint b"
proof -
  have "subfix a b = word_of_int (sint a - sint b)"
    by (simp add: subfix_def)
  moreover have "sint (word_of_int (sint a - sint b) :: 32 word) = sint a - sint b"
    by (rule sint_of_int_small) (use assms in linarith)+
  ultimately show ?thesis
    by simp
qed

lemma edge_product_bound:
  fixes u v :: int
  assumes "\<bar>u\<bar> < 2 ^ 23" and "\<bar>v\<bar> < 2 ^ 23"
  shows "- (2 ^ 30) \<le> u * v div 65536" and "u * v div 65536 < 2 ^ 30"
proof -
  have "\<bar>u\<bar> * \<bar>v\<bar> < 2 ^ 23 * 2 ^ 23"
    using assms by (intro mult_strict_mono) simp_all
  then have b: "\<bar>u * v\<bar> < 2 ^ 46"
    by (simp add: abs_mult)
  have "(- (2 ^ 30)) * 65536 \<le> u * v"
    using b by simp
  then show "- (2 ^ 30) \<le> u * v div 65536"
    by (rule div_sandwich(1) [where hi = "2 ^ 30"]) (use b in simp)
  have "u * v div 65536 \<le> (2 ^ 46 - 1) div 65536"
    using b by (intro zdiv_mono1) simp_all
  then show "u * v div 65536 < 2 ^ 30"
    by simp
qed

lemma wedge_exact_is_area: "wedge_exact t = signed_area2 t"
  by (simp add: wedge_exact_def signed_area2_def algebra_simps)

text \<open>
  Claim C3, as stated, fails both ways: the sliver is wound counterclockwise and is
  classified front-facing (both products truncate to 0), and the 200-pixel triangle is
  wound clockwise and is classified back-facing (the product 200.0 * 200.0 wraps around).
\<close>

theorem is_front_facing_counterexample:
  "signed_area2 sliver < 0 \<and> wedge_exact sliver < 0 \<and> is_front_facing sliver
   \<and> 0 < signed_area2 large_clockwise \<and> 0 < wedge_exact large_clockwise
   \<and> \<not> is_front_facing large_clockwise"
proof -
  have s: "sint (- 1 :: 32 word) = - 1" "sint (1 :: 32 word) = 1" "sint (0 :: 32 word) = 0"
    by simp_all
  have a: "wedge_exact sliver = - 1"
    by (simp add: wedge_exact_def sliver_def)
  have b: "is_front_facing sliver"
    by code_simp
  have f: "int_to_fix 200 = word_of_int 13107200" "int_to_fix 0 = word_of_int 0"
    by (simp_all add: int_to_fix_def)
  have g: "sint (word_of_int 13107200 :: 32 word) = 13107200"
    "sint (word_of_int 0 :: 32 word) = 0"
    by (rule sint_of_int_small; simp)+
  have c: "wedge_exact large_clockwise = 13107200 * 13107200"
    unfolding wedge_exact_def large_clockwise_def f by (simp only: g triangle2d.simps point2d.simps) simp
  have d: "\<not> is_front_facing large_clockwise"
    by code_simp
  from a b c d show ?thesis
    by (simp add: wedge_exact_is_area [symmetric])
qed

text \<open>
  Claim C3, amended. When every component of the two edge vectors is below 128.0 in
  magnitude, \<^verbatim>\<open>is_front_facing\<close> is true iff the truncated product \<open>e2.x * e1.y\<close> is at most
  the truncated product \<open>e1.x * e2.y\<close>; so every clockwise and every zero-area triangle is
  front-facing, and every counterclockwise triangle whose exact wedge is at most \<open>-65536\<close>
  raw units is back-facing.
\<close>

theorem is_front_facing_wedge:
  fixes t :: triangle2d
  defines "e1x \<equiv> sint (x2d (p2_0 t)) - sint (x2d (p2_1 t))"
    and "e1y \<equiv> sint (y2d (p2_0 t)) - sint (y2d (p2_1 t))"
    and "e2x \<equiv> sint (x2d (p2_1 t)) - sint (x2d (p2_2 t))"
    and "e2y \<equiv> sint (y2d (p2_1 t)) - sint (y2d (p2_2 t))"
  assumes "\<bar>e1x\<bar> < 2 ^ 23" and "\<bar>e1y\<bar> < 2 ^ 23" and "\<bar>e2x\<bar> < 2 ^ 23" and "\<bar>e2y\<bar> < 2 ^ 23"
  shows "(is_front_facing t \<longleftrightarrow> e2x * e1y div 65536 \<le> e1x * e2y div 65536)
    \<and> wedge_exact t = e1x * e2y - e2x * e1y
    \<and> wedge_exact t = signed_area2 t
    \<and> (0 \<le> wedge_exact t \<longrightarrow> is_front_facing t)
    \<and> (wedge_exact t \<le> - 65536 \<longrightarrow> \<not> is_front_facing t)"
proof -
  define x1 where "x1 = subfix (x2d (p2_0 t)) (x2d (p2_1 t))"
  define y1 where "y1 = subfix (y2d (p2_0 t)) (y2d (p2_1 t))"
  define x2 where "x2 = subfix (x2d (p2_1 t)) (x2d (p2_2 t))"
  define y2 where "y2 = subfix (y2d (p2_1 t)) (y2d (p2_2 t))"
  define A where "A = e1x * e2y div 65536"
  define B where "B = e2x * e1y div 65536"
  have sx1: "sint x1 = e1x"
    unfolding x1_def e1x_def by (rule sint_subfix) (use assms(5) in \<open>simp add: e1x_def\<close>)
  have sy1: "sint y1 = e1y"
    unfolding y1_def e1y_def by (rule sint_subfix) (use assms(6) in \<open>simp add: e1y_def\<close>)
  have sx2: "sint x2 = e2x"
    unfolding x2_def e2x_def by (rule sint_subfix) (use assms(7) in \<open>simp add: e2x_def\<close>)
  have sy2: "sint y2 = e2y"
    unfolding y2_def e2y_def by (rule sint_subfix) (use assms(8) in \<open>simp add: e2y_def\<close>)
  have Ab: "- (2 ^ 30) \<le> A" "A < 2 ^ 30"
    unfolding A_def using edge_product_bound [OF assms(5) assms(8)] by simp_all
  have Bb: "- (2 ^ 30) \<le> B" "B < 2 ^ 30"
    unfolding B_def using edge_product_bound [OF assms(7) assms(6)] by simp_all
  have "mulfix x1 y2 - mulfix x2 y1 = word_of_int (A - B)"
    unfolding mulfix_eq sx1 sy1 sx2 sy2 A_def B_def by simp
  moreover have "sint (word_of_int (A - B) :: 32 word) = A - B"
    by (rule sint_of_int_small) (use Ab Bb in simp_all)
  ultimately have w: "sint (mulfix x1 y2 - mulfix x2 y1) = A - B"
    by simp
  have "is_front_facing t \<longleftrightarrow> \<not> (mulfix x1 y2 - mulfix x2 y1 <s 0)"
    unfolding is_front_facing_def Let_def x1_def y1_def x2_def y2_def by simp
  also have "\<dots> \<longleftrightarrow> B \<le> A"
    unfolding word_sless_alt w by auto
  finally have ff: "is_front_facing t \<longleftrightarrow> B \<le> A" .
  have we: "wedge_exact t = e1x * e2y - e2x * e1y"
    unfolding wedge_exact_def e1x_def e1y_def e2x_def e2y_def ..
  have pos: "is_front_facing t" if "0 \<le> wedge_exact t"
  proof -
    have "e2x * e1y \<le> e1x * e2y"
      using that unfolding we by simp
    then have "B \<le> A"
      unfolding A_def B_def by (intro zdiv_mono1) simp_all
    then show ?thesis
      using ff by blast
  qed
  have neg: "\<not> is_front_facing t" if "wedge_exact t \<le> - 65536"
  proof -
    have "e1x * e2y + 1 * 65536 \<le> e2x * e1y"
      using that unfolding we by simp
    then have "(e1x * e2y + 1 * 65536) div 65536 \<le> B"
      unfolding B_def by (intro zdiv_mono1) simp_all
    moreover have "(e1x * e2y + 1 * 65536) div 65536 = A + 1"
      unfolding A_def by (simp only: div_mult_self1 [of 65536 "e1x * e2y" 1])
    ultimately have "\<not> B \<le> A"
      by simp
    then show ?thesis
      using ff by blast
  qed
  from ff we pos neg show ?thesis
    unfolding A_def B_def by (simp add: wedge_exact_is_area [symmetric])
qed

theorem is_front_facing_wedge_witness:
  "\<bar>sint (x2d (p2_0 small_clockwise)) - sint (x2d (p2_1 small_clockwise))\<bar> < 2 ^ 23
   \<and> \<bar>sint (y2d (p2_0 small_clockwise)) - sint (y2d (p2_1 small_clockwise))\<bar> < 2 ^ 23
   \<and> \<bar>sint (x2d (p2_1 small_clockwise)) - sint (x2d (p2_2 small_clockwise))\<bar> < 2 ^ 23
   \<and> \<bar>sint (y2d (p2_1 small_clockwise)) - sint (y2d (p2_2 small_clockwise))\<bar> < 2 ^ 23
   \<and> 0 < wedge_exact small_clockwise
   \<and> wedge_exact small_clockwise = signed_area2 small_clockwise
   \<and> is_front_facing small_clockwise"
proof -
  have v: "sint (0xA0000 :: 32 word) = 655360" "sint (0 :: 32 word) = 0"
    by simp_all
  have h1: "\<bar>sint (x2d (p2_0 small_clockwise)) - sint (x2d (p2_1 small_clockwise))\<bar> < 2 ^ 23"
    by (simp add: small_clockwise_def)
  have h2: "\<bar>sint (y2d (p2_0 small_clockwise)) - sint (y2d (p2_1 small_clockwise))\<bar> < 2 ^ 23"
    by (simp add: small_clockwise_def)
  have h3: "\<bar>sint (x2d (p2_1 small_clockwise)) - sint (x2d (p2_2 small_clockwise))\<bar> < 2 ^ 23"
    by (simp add: small_clockwise_def)
  have h4: "\<bar>sint (y2d (p2_1 small_clockwise)) - sint (y2d (p2_2 small_clockwise))\<bar> < 2 ^ 23"
    by (simp add: small_clockwise_def)
  have w: "0 < wedge_exact small_clockwise"
    by (simp add: wedge_exact_def small_clockwise_def)
  from is_front_facing_wedge [OF h1 h2 h3 h4] w h1 h2 h3 h4 show ?thesis
    by simp
qed

end
